theory Spec2Isabelle
  imports Complex_Main "HOL-Library.Word"
begin

unbundle bit_operations_syntax

section \<open>The permutation planner of \<open>fftGen\<close>\<close>

text \<open>
  Inside \<open>fftGen\<close>, once the two arrays have been allocated, the C \<open>int\<close> values are
  never negative: \<open>n\<close> is a power of two, and every index and counter stays between 0
  and \<open>2 * n\<close>. They are modelled as \<open>nat\<close>; the places where the C value could leave
  that range are written out as faults. The point count as \<open>main\<close> reads and tests it is
  a 32-bit word (see \<open>options\<close>).
\<close>

datatype fault = DivByZero | Diverges

text \<open>
  The inner loop of the binary inversion, \<open>do { k /= 2; } while (mr+k > nn);\<close>
  with \<open>nn = n-1\<close>, so that the test is \<open>mr+k \<ge> n\<close>. When \<open>k\<close> has reached 0 and
  the test still holds the C loop never ends.
\<close>

function halve_k :: "nat \<Rightarrow> nat \<Rightarrow> nat \<Rightarrow> fault + nat" where
  "halve_k n mr k =
     (let k' = k div 2 in
      if mr + k' \<ge> n then (if k' = 0 then Inl Diverges else halve_k n mr k')
      else Inr k')"
  by pat_completeness auto
termination
  by (relation "measure (\<lambda>(n, mr, k). k)") auto

text \<open>\<open>k = n; do ... while; mr = mr%k + k;\<close> with the division by zero of \<open>mr%k\<close>.\<close>

definition next_mr :: "nat \<Rightarrow> nat \<Rightarrow> fault + nat" where
  "next_mr n mr =
     (case halve_k n mr n of
        Inl f \<Rightarrow> Inl f
      | Inr k \<Rightarrow> if k = 0 then Inl DivByZero else Inr (mr mod k + k))"

record SWAP =
  m :: nat
  mr :: nat
  m_new :: nat
  mr_new :: nat
  symmIn :: bool

text \<open>
  The array \<open>swap[]\<close> after its initialisation loop. The loop sets the four index
  fields and leaves the flag as \<open>malloc\<close> returned it; the flag of a slot is read
  only after the slot has been filled, so the model takes \<open>False\<close>.
\<close>

definition swap_init :: "nat \<Rightarrow> SWAP list" where
  "swap_init n = replicate n \<lparr>m = 0, mr = 0, m_new = 0, mr_new = 0, symmIn = False\<rparr>"

text \<open>
  \<open>for (i=nSwap-1; i>0; --i) if (x == swap[i].m || x == swap[i].mr) break;\<close>
  The result is the value of the loop variable after the loop. With \<open>nSwap = 0\<close> the C
  variable is \<open>-1\<close> where the model has 0; both fail the test \<open>> 0\<close> that follows.
\<close>

fun scan_back :: "SWAP list \<Rightarrow> nat \<Rightarrow> nat \<Rightarrow> nat" where
  "scan_back swap x 0 = 0"
| "scan_back swap x (Suc i) =
     (if x = m (swap ! Suc i) \<or> x = mr (swap ! Suc i) then Suc i
      else scan_back swap x i)"

text \<open>\<open>for (ii=nSwap; ii>i_mr; --ii) swap[ii] = swap[ii-1];\<close> (all five fields).\<close>

function shift_up :: "SWAP list \<Rightarrow> nat \<Rightarrow> nat \<Rightarrow> SWAP list" where
  "shift_up swap ii i_mr =
     (if ii > i_mr then shift_up (swap[ii := swap ! (ii - 1)]) (ii - 1) i_mr else swap)"
  by pat_completeness auto
termination
  by (relation "measure (\<lambda>(swap, ii, i_mr). ii)") auto

record pstate =
  cur_mr :: nat
  nSwap :: nat
  swap :: "SWAP list"

text \<open>The body of \<open>if (mr > m) { ... ++nSwap; }\<close> for the current \<open>m\<close> and \<open>mr\<close>.\<close>

definition add_swap :: "nat \<Rightarrow> bool \<Rightarrow> nat \<Rightarrow> nat \<Rightarrow> nat \<Rightarrow> SWAP list \<Rightarrow> SWAP list" where
  "add_swap n symm_in mm mmr ns sw =
     (if \<not> symm_in then
        sw[ns := (sw ! ns)\<lparr>m := mm, mr := mmr, symmIn := False\<rparr>]
      else
        let sw1 = sw[ns := (sw ! ns)\<lparr>m := mm, mr := mmr\<rparr>] in
        if mm \<le> n div 2 \<and> mmr \<le> n div 2 then
          sw1[ns := (sw1 ! ns)\<lparr>symmIn := False\<rparr>]
        else
          let mn = (if mm > n div 2 then n - mm else mm);
              mrn = (if mmr > n div 2 then n - mmr else mmr);
              sw2 = sw1[ns := (sw1 ! ns)\<lparr>m_new := mn, mr_new := mrn, symmIn := True\<rparr>];
              i_m = (if mm > n div 2 then scan_back sw2 mn (ns - 1) else 0);
              i_mr = (if mmr > n div 2 then scan_back sw2 mrn (ns - 1) else 0);
              i_mr' = (if i_mr > 0 \<and> i_m > 0 then (if i_mr > i_m then i_m else i_mr)
                       else if i_m > 0 then i_m else i_mr)
          in if i_mr' > 0 then
               (shift_up sw2 ns i_mr')
                 [i_mr' := \<lparr>m = mm, mr = mmr, m_new = mn, mr_new = mrn, symmIn = True\<rparr>]
             else sw2)"

text \<open>The loop \<open>for (nSwap=0,m=1; m<=nn; ++m)\<close>; \<open>m <= nn\<close> is \<open>m < n\<close>.\<close>

function plan_loop :: "nat \<Rightarrow> bool \<Rightarrow> nat \<Rightarrow> pstate \<Rightarrow> fault + pstate" where
  "plan_loop n symm_in mm st =
     (if mm < n then
        (case next_mr n (cur_mr st) of
           Inl f \<Rightarrow> Inl f
         | Inr mmr \<Rightarrow>
             plan_loop n symm_in (mm + 1)
               (if mmr > mm then
                  \<lparr>cur_mr = mmr, nSwap = nSwap st + 1,
                   swap = add_swap n symm_in mm mmr (nSwap st) (swap st)\<rparr>
                else st\<lparr>cur_mr := mmr\<rparr>))
      else Inr st)"
  by pat_completeness auto
termination
  by (relation "measure (\<lambda>(n, symm_in, mm, st). n - mm)") auto

definition planner :: "nat \<Rightarrow> bool \<Rightarrow> fault + pstate" where
  "planner n symm_in = plan_loop n symm_in 1 \<lparr>cur_mr = 0, nSwap = 0, swap = swap_init n\<rparr>"

text \<open>The records the emitter walks: \<open>swap[0] .. swap[nSwap-1]\<close>.\<close>

definition records :: "pstate \<Rightarrow> SWAP list" where
  "records st = take (nSwap st) (swap st)"


section \<open>The emitted statements\<close>

text \<open>
  Every \<open>printf\<close> of the generator writes one line of one of a few fixed shapes. The
  model keeps the line as a value (which shape, which indices, which constant) and
  turns it into text in \<open>render\<close>. \<open>XR\<close> and \<open>XI\<close> name the arrays \<open>xr\<close> and \<open>xi\<close>;
  the scalar that goes with \<open>xr\<close> is \<open>tr\<close>, the one that goes with \<open>xi\<close> is \<open>ti\<close>.
  The C \<open>double\<close> values are modelled as real numbers.
\<close>

datatype arr = XR | XI

text \<open>The summands that \<open>snprintf\<close> appends to the line \<open>tr =\<close> or \<open>ti =\<close>.\<close>

datatype piece =
    Lit real arr nat         \<comment> \<open>\<open>" %21.14e*xr[%d]"\<close>\<close>
  | Plain arr nat            \<comment> \<open>\<open>" xr[%d]"\<close>\<close>
  | Minus arr nat            \<comment> \<open>\<open>" -xr[%d]"\<close>\<close>
  | SubLit real arr nat      \<comment> \<open>\<open>" - %21.14e*xi[%d]"\<close>\<close>
  | AddLit real arr nat      \<comment> \<open>\<open>" + %21.14e*xi[%d]"\<close>\<close>
  | Add arr nat              \<comment> \<open>\<open>" + xi[%d]"\<close>\<close>
  | Sub arr nat              \<comment> \<open>\<open>" - xi[%d]"\<close>\<close>

datatype stmt =
    FillR nat nat            \<comment> \<open>\<open>"xr[%d] =  xr[%d];"\<close>\<close>
  | Copy arr nat nat         \<comment> \<open>\<open>"xr[%d] = xr[%d];"\<close>, \<open>"xi[%d] = xi[%d];"\<close>\<close>
  | CopyNeg nat nat          \<comment> \<open>\<open>"xi[%d] = -xi[%d];"\<close>\<close>
  | Save arr nat             \<comment> \<open>\<open>"tr = xr[%d];"\<close>, \<open>"ti = xi[%d];"\<close>\<close>
  | Load arr nat             \<comment> \<open>\<open>"xr[%d] = tr;"\<close>, \<open>"xi[%d] = ti;"\<close>\<close>
  | SetT arr "piece list"    \<comment> \<open>\<open>"tr =" ... ";"\<close>, \<open>"ti =" ... ";"\<close>\<close>
  | SubT arr nat nat         \<comment> \<open>\<open>"xr[%d] = xr[%d] - tr;"\<close>, \<open>"xi[%d] = xi[%d] - ti;"\<close>\<close>
  | NegT nat                 \<comment> \<open>\<open>"xi[%d] = - ti;"\<close>\<close>
  | Zero nat                 \<comment> \<open>\<open>"xi[%d] = 0.0;"\<close>\<close>
  | AddT arr nat             \<comment> \<open>\<open>"xr[%d] += tr;"\<close>, \<open>"xi[%d] += ti;"\<close>\<close>
  | Blank                    \<comment> \<open>\<open>putchar ('\n')\<close>\<close>

section \<open>The permutation emitter\<close>

text \<open>
  The search \<open>for (ii=nSwap-1; ii>=0; --ii) if (swap[ii].m==i || swap[ii].mr==i) break;\<close>
  ends with \<open>ii < 0\<close> exactly when no record lists \<open>i\<close>.
\<close>

definition listed :: "SWAP list \<Rightarrow> nat \<Rightarrow> nat \<Rightarrow> bool" where
  "listed sw ns i = list_ex (\<lambda>r. m r = i \<or> mr r = i) (take ns sw)"

text \<open>The loop \<open>for (i=n/2+1; i<n; ++i)\<close> that fills the indices no record lists.\<close>

definition fill_stmts :: "nat \<Rightarrow> SWAP list \<Rightarrow> nat \<Rightarrow> stmt list" where
  "fill_stmts n sw ns =
     concat (map (\<lambda>i. if listed sw ns i then [] else [FillR i (n - i), CopyNeg i (n - i)])
                 [n div 2 + 1 ..< n])"

text \<open>The body of the loop \<open>for (k=0; k<nSwap; ++k)\<close> for the record \<open>swap[k]\<close>.\<close>

definition swap_stmts :: "nat \<Rightarrow> bool \<Rightarrow> SWAP \<Rightarrow> stmt list" where
  "swap_stmts n realIn r =
     (if \<not> symmIn r then
        [Save XR (m r), Copy XR (m r) (mr r), Load XR (mr r)] @
        (if \<not> realIn then [Save XI (m r), Copy XI (m r) (mr r), Load XI (mr r)] else [])
      else
        [Copy XR (mr r) (m_new r), Copy XR (m r) (mr_new r)] @
        (if \<not> realIn then
           [if m r \<le> n div 2 then Copy XI (mr r) (m_new r) else CopyNeg (mr r) (m_new r),
            if mr r \<le> n div 2 then Copy XI (m r) (mr_new r) else CopyNeg (m r) (mr_new r)]
         else []))"

text \<open>Everything printed between the planner and the transform.\<close>

definition perm_emit :: "nat \<Rightarrow> bool \<Rightarrow> bool \<Rightarrow> pstate \<Rightarrow> stmt list" where
  "perm_emit n realIn symm_in st =
     (if symm_in then fill_stmts n (swap st) (nSwap st) else []) @
     concat (map (swap_stmts n realIn) (records st)) @ [Blank]"

section \<open>The butterfly emitter\<close>

definition eps :: "nat \<Rightarrow> real" where
  "eps n = 0.5 * sin (pi / real (n div 2))"

definition epsOne :: "nat \<Rightarrow> real" where
  "epsOne n = 1.0 - 0.5 * (1.0 - cos (pi / real (n div 2)))"

definition epsMOne :: "nat \<Rightarrow> real" where
  "epsMOne n = - 1.0 + 0.5 * (1.0 - cos (pi / real (n div 2)))"

text \<open>
  The nest of comparisons that the emitter applies to \<open>wr\<close> and to \<open>wi\<close>:
  \<open>if (fabs(w) > eps) { if (w < epsOne) { if (w > epsMOne) ... } }\<close>, and inside it
  \<open>if (w >= 0.0)\<close> where the sign of the constant is folded into the operator.
\<close>

datatype tw_class = ZERO | PLUS_ONE | MINUS_ONE | POS | NEG

definition classify :: "real \<Rightarrow> real \<Rightarrow> real \<Rightarrow> real \<Rightarrow> tw_class" where
  "classify e e1 em1 w =
     (if \<bar>w\<bar> > e then
        (if w < e1 then
           (if w > em1 then (if w \<ge> 0 then POS else NEG) else MINUS_ONE)
         else PLUS_ONE)
      else ZERO)"

text \<open>
  The line \<open>tr = wr*xr[jj] - wi*xi[jj];\<close> after folding. The result is the list of
  summands and the flag \<open>trz\<close>; the line is printed when \<open>trz\<close> is unset.
\<close>

definition tr_line :: "real \<Rightarrow> real \<Rightarrow> real \<Rightarrow> real \<Rightarrow> real \<Rightarrow> bool \<Rightarrow> nat \<Rightarrow> piece list \<times> bool" where
  "tr_line e e1 em1 wr wi nzi_jj jj =
     (let (first, firstOpZero) =
            (case classify e e1 em1 wr of
               ZERO \<Rightarrow> ([], True)
             | PLUS_ONE \<Rightarrow> ([Plain XR jj], False)
             | MINUS_ONE \<Rightarrow> ([Minus XR jj], False)
             | _ \<Rightarrow> ([Lit wr XR jj], False))
      in if \<bar>wi\<bar> > e \<and> nzi_jj then
           (first @
            [case classify e e1 em1 wi of
               PLUS_ONE \<Rightarrow> Sub XI jj
             | MINUS_ONE \<Rightarrow> (if \<not> firstOpZero then Add XI jj else Plain XI jj)
             | _ \<Rightarrow> (if \<not> firstOpZero then
                        (if wi \<ge> 0 then SubLit wi XI jj else AddLit (- wi) XI jj)
                      else Lit (- wi) XI jj)], False)
         else if \<not> firstOpZero then (first, False)
         else ([], True))"

text \<open>The line \<open>ti = wr*xi[jj] + wi*xr[jj];\<close> after folding, with the flag \<open>tiz\<close>.\<close>

definition ti_line :: "real \<Rightarrow> real \<Rightarrow> real \<Rightarrow> real \<Rightarrow> real \<Rightarrow> bool \<Rightarrow> nat \<Rightarrow> piece list \<times> bool" where
  "ti_line e e1 em1 wr wi nzi_jj jj =
     (let (first, firstOpZero) =
            (if \<bar>wr\<bar> > e \<and> nzi_jj then
               (case classify e e1 em1 wr of
                  PLUS_ONE \<Rightarrow> ([Plain XI jj], False)
                | MINUS_ONE \<Rightarrow> ([Minus XI jj], False)
                | _ \<Rightarrow> ([Lit wr XI jj], False))
             else ([], True))
      in if \<bar>wi\<bar> > e then
           (first @
            [case classify e e1 em1 wi of
               PLUS_ONE \<Rightarrow> Plain XR jj
             | MINUS_ONE \<Rightarrow> Sub XR jj
             | _ \<Rightarrow> (if \<not> firstOpZero then
                        (if wi \<ge> 0 then AddLit wi XR jj else SubLit (- wi) XR jj)
                      else Lit wi XR jj)], False)
         else if \<not> firstOpZero then (first, False)
         else ([], True))"

record flags =
  inv :: bool
  realIn :: bool
  realOut :: bool
  symm_in :: bool
  symmOut :: bool

text \<open>
  One pass through the body of the innermost loop, for the pair \<open>(ii, jj)\<close>: the lines
  it prints and the array \<open>nzi\<close> afterwards.
\<close>

definition butterfly ::
  "nat \<Rightarrow> flags \<Rightarrow> bool \<Rightarrow> real \<Rightarrow> real \<Rightarrow> nat \<Rightarrow> nat \<Rightarrow> bool list \<Rightarrow> stmt list \<times> bool list" where
  "butterfly n f lastKCycle wr wi ii jj nzi =
     (let (trp, trz) = tr_line (eps n) (epsOne n) (epsMOne n) wr wi (nzi ! jj) jj;
          out1 = (if trz then [] else [SetT XR trp]);
          (tip, tiz) = (if \<not> (realOut f \<and> lastKCycle)
                        then ti_line (eps n) (epsOne n) (epsMOne n) wr wi (nzi ! jj) jj
                        else ([], False));
          out2 = (if \<not> (realOut f \<and> lastKCycle) \<and> \<not> tiz then [SetT XI tip] else []);
          (out3, nzi3) =
            (if \<not> (symmOut f \<and> lastKCycle \<and> jj \<noteq> n div 2) then
               (let o_r = [if \<not> trz then SubT XR jj ii else Copy XR jj ii] in
                if \<not> (realOut f \<and> lastKCycle) then
                  (if \<not> tiz then
                     (o_r @ [if nzi ! ii then SubT XI jj ii else NegT jj], nzi[jj := True])
                   else if nzi ! ii then (o_r @ [Copy XI jj ii], nzi[jj := True])
                   else if realIn f \<and> lastKCycle then (o_r @ [Zero jj], nzi)
                   else (o_r, nzi))
                else (o_r, nzi))
             else ([], nzi));
          out4 = (if \<not> trz then [AddT XR ii] else []);
          (out5, nzi5) =
            (if \<not> (realOut f \<and> lastKCycle) then
               (if \<not> tiz then
                  (if nzi3 ! ii then ([AddT XI ii], nzi3) else ([Load XI ii], nzi3[ii := True]))
                else if realIn f \<and> lastKCycle then ([Zero ii], nzi3)
                else ([], nzi3))
             else ([], nzi3))
      in (out1 @ out2 @ out3 @ out4 @ out5, nzi5))"

text \<open>
  \<open>for (i=m; i<=nm; ++i) { jj = ii+k; ... ii += istep; }\<close>: the lines printed so far
  and \<open>nzi\<close> are passed along.
\<close>

function point_loop ::
  "nat \<Rightarrow> flags \<Rightarrow> bool \<Rightarrow> real \<Rightarrow> real \<Rightarrow> nat \<Rightarrow> nat \<Rightarrow> nat \<Rightarrow> nat \<Rightarrow> nat \<Rightarrow>
   stmt list \<times> bool list \<Rightarrow> stmt list \<times> bool list" where
  "point_loop n f lastKCycle wr wi k istep nm i ii (out, nzi) =
     (if i \<le> nm then
        (let (o', nzi') = butterfly n f lastKCycle wr wi ii (ii + k) nzi
         in point_loop n f lastKCycle wr wi k istep nm (i + 1) (ii + istep) (out @ o', nzi'))
      else (out, nzi))"
  by pat_completeness auto
termination
  by (relation "measure (\<lambda>(n, f, l, wr, wi, k, istep, nm, i, ii, s). nm + 1 - i)") auto

text \<open>
  \<open>for (m=0; m<k; ++m)\<close> with \<open>a = M_PI*(-m)/k\<close>, \<open>wr = cos(a)\<close>, \<open>wi = sin(a)\<close>,
  \<open>if (inv) wi = -wi\<close>, \<open>ii = m\<close> and \<open>nm = (nn-m)/istep + m\<close>.
\<close>

function group_loop ::
  "nat \<Rightarrow> flags \<Rightarrow> bool \<Rightarrow> nat \<Rightarrow> nat \<Rightarrow> nat \<Rightarrow> stmt list \<times> bool list \<Rightarrow> stmt list \<times> bool list" where
  "group_loop n f lastKCycle k istep mm s =
     (if mm < k then
        (let a = pi * (- real mm) / real k;
             wr = cos a;
             wi = (if inv f then - sin a else sin a);
             nm = (n - 1 - mm) div istep + mm
         in group_loop n f lastKCycle k istep (mm + 1)
              (point_loop n f lastKCycle wr wi k istep nm mm mm s))
      else s)"
  by pat_completeness auto
termination
  by (relation "measure (\<lambda>(n, f, l, k, istep, mm, s). k - mm)") auto

text \<open>
  \<open>for (k=1; k<n; k=istep) { istep = 2*k; if (istep==n) lastKCycle = 1; ... }\<close>.
  \<open>k\<close> starts at 1 and doubles, so it is never 0.
\<close>

function stage_loop ::
  "nat \<Rightarrow> flags \<Rightarrow> bool \<Rightarrow> nat \<Rightarrow> stmt list \<times> bool list \<Rightarrow> stmt list \<times> bool list" where
  "stage_loop n f lastKCycle k s =
     (if 0 < k \<and> k < n then
        (let istep = 2 * k;
             lastKCycle' = (if istep = n then True else lastKCycle)
         in stage_loop n f lastKCycle' istep (group_loop n f lastKCycle' k istep 0 s))
      else s)"
  by pat_completeness auto
termination
  by (relation "measure (\<lambda>(n, f, l, k, s). n - k)") auto

text \<open>\<open>nzi\<close> after \<open>if ( ! realIn) ... nzi[i] = 1; else ... nzi[i] = 0;\<close>.\<close>

definition nzi_init :: "nat \<Rightarrow> bool \<Rightarrow> bool list" where
  "nzi_init n real_in = replicate n (\<not> real_in)"

definition transform :: "nat \<Rightarrow> flags \<Rightarrow> stmt list \<times> bool list" where
  "transform n f = stage_loop n f False 1 ([], nzi_init n (realIn f))"

text \<open>
  The generating function, once both arrays are allocated: the planner, the
  permutation lines, the blank line, the transform.
\<close>

definition fftGen :: "nat \<Rightarrow> flags \<Rightarrow> fault + stmt list" where
  "fftGen n f =
     (case planner n (symm_in f) of
        Inl e \<Rightarrow> Inl e
      | Inr st \<Rightarrow> Inr (perm_emit n (realIn f) (symm_in f) st @ fst (transform n f)))"


section \<open>The text written to the output\<close>

definition ln :: "string \<Rightarrow> string" where
  "ln s = s @ [CHR 0x0A]"

text \<open>\<open>%d\<close> for an index and for the point count.\<close>

function dec_nat :: "nat \<Rightarrow> string" where
  "dec_nat x = (if x < 10 then [''0123456789'' ! x]
                else dec_nat (x div 10) @ [''0123456789'' ! (x mod 10)])"
  by pat_completeness auto
termination
  by (relation "measure (\<lambda>x. x)") auto

definition dec_int :: "int \<Rightarrow> string" where
  "dec_int i = (if i < 0 then ''-'' @ dec_nat (nat (- i)) else dec_nat (nat i))"

definition arr_name :: "arr \<Rightarrow> string" where
  "arr_name a = (case a of XR \<Rightarrow> ''xr'' | XI \<Rightarrow> ''xi'')"

definition tmp_name :: "arr \<Rightarrow> string" where
  "tmp_name a = (case a of XR \<Rightarrow> ''tr'' | XI \<Rightarrow> ''ti'')"

definition elem :: "arr \<Rightarrow> nat \<Rightarrow> string" where
  "elem a i = arr_name a @ ''['' @ dec_nat i @ '']''"

text \<open>
  The conversion \<open>%21.14e\<close> of \<open>NUMBER_FORMAT\<close> belongs to the C library; the text
  functions take it as the parameter \<open>fe\<close>.
\<close>

fun render_piece :: "(real \<Rightarrow> string) \<Rightarrow> piece \<Rightarrow> string" where
  "render_piece fe (Lit w a j) = '' '' @ fe w @ ''*'' @ elem a j"
| "render_piece fe (Plain a j) = '' '' @ elem a j"
| "render_piece fe (Minus a j) = '' -'' @ elem a j"
| "render_piece fe (SubLit w a j) = '' - '' @ fe w @ ''*'' @ elem a j"
| "render_piece fe (AddLit w a j) = '' + '' @ fe w @ ''*'' @ elem a j"
| "render_piece fe (Add a j) = '' + '' @ elem a j"
| "render_piece fe (Sub a j) = '' - '' @ elem a j"

fun render :: "(real \<Rightarrow> string) \<Rightarrow> stmt \<Rightarrow> string" where
  "render fe (FillR i j) = ln (elem XR i @ '' =  '' @ elem XR j @ '';'')"
| "render fe (Copy a i j) = ln (elem a i @ '' = '' @ elem a j @ '';'')"
| "render fe (CopyNeg i j) = ln (elem XI i @ '' = -'' @ elem XI j @ '';'')"
| "render fe (Save a i) = ln (tmp_name a @ '' = '' @ elem a i @ '';'')"
| "render fe (Load a i) = ln (elem a i @ '' = '' @ tmp_name a @ '';'')"
| "render fe (SetT a ps) = ln (tmp_name a @ '' ='' @ concat (map (render_piece fe) ps) @ '';'')"
| "render fe (SubT a i j) = ln (elem a i @ '' = '' @ elem a j @ '' - '' @ tmp_name a @ '';'')"
| "render fe (NegT i) = ln (elem XI i @ '' = - ti;'')"
| "render fe (Zero i) = ln (elem XI i @ '' = 0.0;'')"
| "render fe (AddT a i) = ln (elem a i @ '' += '' @ tmp_name a @ '';'')"
| "render fe Blank = ln []"

definition render_all :: "(real \<Rightarrow> string) \<Rightarrow> stmt list \<Rightarrow> string" where
  "render_all fe ss = concat (map (render fe) ss)"

definition licenseText :: string where
  "licenseText = concat (map ln
     [''// This program is free software: you can redistribute it and/or modify it under'',
      ''// the terms of the GNU General Public License as published by the Free Software'',
      ''// Foundation; either version 3 of the license, or (at your option) any later'',
      ''// version.'',
      ''//'',
      ''// This program is distributed in the hope that it will be useful, but WITHOUT'',
      ''// ANY WARRANTY; without even the implied warranty of MERCHANTABILITY or FITNESS'',
      ''// FOR A PARTICULAR PURPOSE. See the GNU General Public License for more'',
      ''// details.'',
      ''//'',
      ''// You should have received a copy of the GNU General Public License along with'',
      ''// this program, see file COPYING. If not, see https://www.gnu.org/licenses/.''])"

definition header :: string where
  "header = []"

definition footer :: string where
  "footer = []"

section \<open>The driver\<close>

datatype exit_status = EXIT_SUCCESS | EXIT_FAILURE

text \<open>What a run leaves behind: the exit status and the two streams.\<close>

record result =
  status :: exit_status
  out :: string
  err :: string

text \<open>
  \<open>info (file)\<close> prints the usage and ends the program: with failure when the file is
  \<open>stderr\<close>, with success otherwise. \<open>pre_out\<close> and \<open>pre_err\<close> are what the streams hold
  already.
\<close>

definition usage :: string where
  "usage = concat (map ln
     [''Usage: fftGen [option...]'',
      ''Options:'',
      ''Mandatory arguments to long options are mandatory for short options too.'',
      '' -n, --points NUMBER   Number of points, must be a power of 2.'',
      '' -i, --inverse         Generate code for inverse FFT.'',
      '' -r, --real-in-opt     Optimize for real only input.'',
      '' -o, --real-out-opt    Optimize for real only output.'',
      '' -m, --symm-in-opt     Optimize for symmetry at input sequence.'',
      '' -s, --symm-out-opt    Optimize for symmetry at output sequence.'',
      '' -l, --license         Write a GPL 3 note at the beginning of the code.'',
      '' -v, --verbose         Increase verbosity level.'',
      ''                       Verbose output is directed to stderr.'',
      '' -V, --version         Print version and exit.'',
      '' -h, --help            Print this info.'',
      ''Note that it is required to specify the number of data points by option -n'',
      ''or --points.'',
      ''Result is written to stdout''])"

definition info :: "bool \<Rightarrow> string \<Rightarrow> string \<Rightarrow> result" where
  "info to_stderr pre_out pre_err =
     (if to_stderr then \<lparr>status = EXIT_FAILURE, out = pre_out, err = pre_err @ usage\<rparr>
      else \<lparr>status = EXIT_SUCCESS,
            out = pre_out @ ln ''fftGen: Generate code to compute an FFT or IFFT''
                  @ ln ''Version: V1'' @ ln [] @ usage,
            err = pre_err\<rparr>)"

text \<open>
  The variables of \<open>main\<close> that the options write. The point count \<open>n\<close> is a C \<open>int\<close>:
  a word of 32 bits, read as a signed number by \<open>sint\<close>; its arithmetic wraps around,
  as the arithmetic of the compiled program does. The flags are counters: an option
  given twice counts twice.
\<close>

record options =
  o_n :: "32 word"
  o_inv :: nat
  o_realIn :: nat
  o_realOut :: nat
  o_symmIn :: nat
  o_symmOut :: nat
  o_license :: nat
  o_verbose :: nat

datatype target =
  T_n | T_inv | T_realIn | T_realOut | T_symmIn | T_symmOut | T_license | T_verbose

record OPTION =
  shOpt :: string
  lgOpt :: string
  fmt :: "string option"
  val :: target

definition pOptions :: "OPTION list" where
  "pOptions =
     [\<lparr>shOpt = ''n'', lgOpt = ''-points'', fmt = Some ''%i'', val = T_n\<rparr>,
      \<lparr>shOpt = ''i'', lgOpt = ''-inverse'', fmt = None, val = T_inv\<rparr>,
      \<lparr>shOpt = ''r'', lgOpt = ''-real-in-opt'', fmt = None, val = T_realIn\<rparr>,
      \<lparr>shOpt = ''o'', lgOpt = ''-real-out-opt'', fmt = None, val = T_realOut\<rparr>,
      \<lparr>shOpt = ''m'', lgOpt = ''-symm-in-opt'', fmt = None, val = T_symmIn\<rparr>,
      \<lparr>shOpt = ''s'', lgOpt = ''-symm-out-opt'', fmt = None, val = T_symmOut\<rparr>,
      \<lparr>shOpt = ''l'', lgOpt = ''-license'', fmt = None, val = T_license\<rparr>,
      \<lparr>shOpt = ''v'', lgOpt = ''-verbose'', fmt = None, val = T_verbose\<rparr>]"

text \<open>\<open>++*(int*)pOp->val\<close> and the store of a scanned number through \<open>pOp->val\<close>.\<close>

fun incr :: "target \<Rightarrow> options \<Rightarrow> options" where
  "incr T_n s = s\<lparr>o_n := o_n s + 1\<rparr>"
| "incr T_inv s = s\<lparr>o_inv := o_inv s + 1\<rparr>"
| "incr T_realIn s = s\<lparr>o_realIn := o_realIn s + 1\<rparr>"
| "incr T_realOut s = s\<lparr>o_realOut := o_realOut s + 1\<rparr>"
| "incr T_symmIn s = s\<lparr>o_symmIn := o_symmIn s + 1\<rparr>"
| "incr T_symmOut s = s\<lparr>o_symmOut := o_symmOut s + 1\<rparr>"
| "incr T_license s = s\<lparr>o_license := o_license s + 1\<rparr>"
| "incr T_verbose s = s\<lparr>o_verbose := o_verbose s + 1\<rparr>"

fun store :: "target \<Rightarrow> 32 word \<Rightarrow> options \<Rightarrow> options" where
  "store T_n v s = s\<lparr>o_n := v\<rparr>"
| "store T_inv v s = s\<lparr>o_inv := nat (sint v)\<rparr>"
| "store T_realIn v s = s\<lparr>o_realIn := nat (sint v)\<rparr>"
| "store T_realOut v s = s\<lparr>o_realOut := nat (sint v)\<rparr>"
| "store T_symmIn v s = s\<lparr>o_symmIn := nat (sint v)\<rparr>"
| "store T_symmOut v s = s\<lparr>o_symmOut := nat (sint v)\<rparr>"
| "store T_license v s = s\<lparr>o_license := nat (sint v)\<rparr>"
| "store T_verbose v s = s\<lparr>o_verbose := nat (sint v)\<rparr>"

text \<open>
  What the program takes from outside: the conversion \<open>%i\<close> of \<open>sscanf\<close> (\<open>Some v\<close>
  when \<open>sscanf (s, "%i", &v)\<close> returns 1, \<open>v\<close> being the \<open>int\<close> it has stored), the
  conversion \<open>%21.14e\<close> of \<open>printf\<close>, whether the two calls of \<open>malloc\<close> return memory
  when they ask for the arrays of a point count that is not negative, and the text of
  \<open>strerror (errno)\<close>.
\<close>

record env =
  scan_i :: "string \<Rightarrow> 32 word option"
  fmt_e :: "real \<Rightarrow> string"
  nzi_alloc :: bool
  swap_alloc :: bool
  strerror_text :: string

fun after_prefix :: "string \<Rightarrow> string \<Rightarrow> string option" where
  "after_prefix [] s = Some s"
| "after_prefix (p # ps) [] = None"
| "after_prefix (p # ps) (c # cs) = (if p = c then after_prefix ps cs else None)"

text \<open>
  \<open>sscanf (arg, name "%i", val) == 1\<close>: the characters of \<open>name\<close> must match the
  argument one by one, then the number is read from what follows.
\<close>

definition scan_named :: "env \<Rightarrow> string \<Rightarrow> string \<Rightarrow> 32 word option" where
  "scan_named ev name arg =
     (case after_prefix name arg of None \<Rightarrow> None | Some r \<Rightarrow> scan_i ev r)"


text \<open>
  The result of \<open>checkOption\<close>: it returns \<open>ret\<close> with the options as they are now and
  tells whether it has moved \<open>*pi\<close> on to the next command line entry, or it ends the
  program.
\<close>

datatype checked = Ret int options bool | Stop result

text \<open>
  \<open>checkOption\<close> for the entry \<open>cur = argv[*pi]\<close> (from where the pointer stands now)
  and the entries \<open>rest\<close> after it. The first branch is the one for a format \<open>%s\<close>;
  it stores a pointer to the text, for which \<open>options\<close> has no place, and no entry of
  \<open>pOptions\<close> takes it. Every other format of the table is \<open>%i\<close>. At the end of the
  command line \<open>argv[*pi]\<close> is the null pointer, which the C library prints as
  \<open>(null)\<close>.
\<close>

definition checkOption :: "env \<Rightarrow> string \<Rightarrow> string list \<Rightarrow> OPTION \<Rightarrow> options \<Rightarrow> checked" where
  "checkOption ev cur rest op s =
     (if fmt op \<noteq> None \<and> the (fmt op) ! 1 = CHR ''s'' then
        (if take (length (shOpt op)) cur = shOpt op \<or> take (length (lgOpt op)) cur = lgOpt op
         then
           (let len = (if take (length (shOpt op)) cur = shOpt op then length (shOpt op)
                       else length (lgOpt op))
            in if drop len cur = [] then
                 (if rest = [] then
                    Stop (info True [] ([CHR 0x0A] @ ln ''fftGen: Missing option argument''))
                  else Ret 1 s True)
               else Ret 1 s False)
         else Ret 0 s False)
      else
        (case (if fmt op = None then None
               else (case scan_named ev (shOpt op @ ''='') cur of
                       Some v \<Rightarrow> Some v
                     | None \<Rightarrow>
                   (case scan_named ev (shOpt op) cur of
                       Some v \<Rightarrow> Some v
                     | None \<Rightarrow>
                   (case scan_named ev (lgOpt op @ ''='') cur of
                       Some v \<Rightarrow> Some v
                     | None \<Rightarrow> scan_named ev (lgOpt op) cur)))) of
           Some v \<Rightarrow> Ret 1 (store (val op) v s) False
         | None \<Rightarrow>
             if take (length (shOpt op)) cur = shOpt op \<and> fmt op = None then
               Ret (- 1) (incr (val op) s) False
             else if cur = shOpt op \<or> cur = lgOpt op then
               (if fmt op = None then Ret 1 (incr (val op) s) False
                else
                  (case rest of
                     [] \<Rightarrow>
                       Stop (info True []
                         ([CHR 0x0A] @ ln ''fftGen: Invalid option argument (null)'' @ ln []))
                   | a # _ \<Rightarrow>
                       (case scan_i ev a of
                          None \<Rightarrow>
                            Stop (info True []
                              ([CHR 0x0A] @ ln (''fftGen: Invalid option argument '' @ a) @ ln []))
                        | Some v \<Rightarrow> Ret 1 (store (val op) v s) True)))
             else Ret 0 s False))"

text \<open>
  \<open>checkOptions\<close> walks the table until an entry answers with a value other than 0;
  the second component is the index \<open>*po\<close> of that entry.
\<close>

fun checkOptions ::
  "env \<Rightarrow> string \<Rightarrow> string list \<Rightarrow> OPTION list \<Rightarrow> nat \<Rightarrow> options \<Rightarrow> checked \<times> nat" where
  "checkOptions ev cur rest [] po s = (Ret 0 s False, po)"
| "checkOptions ev cur rest (op # ops) po s =
     (case checkOption ev cur rest op s of
        Stop r \<Rightarrow> (Stop r, po)
      | Ret r s' adv \<Rightarrow>
          if r \<noteq> 0 then (Ret r s' adv, po) else checkOptions ev cur rest ops (po + 1) s')"

text \<open>
  The loop of \<open>main\<close> over the command line (without \<open>argv[0]\<close>) and, inside it, the
  loop \<open>while (*++argv[i])\<close> over the characters of one entry. \<open>Inl\<close> is the end of
  the program inside the loop, \<open>Inr\<close> the options when the command line is used up.
\<close>

function parse_args :: "env \<Rightarrow> options \<Rightarrow> string list \<Rightarrow> result + options"
  and short_opts :: "env \<Rightarrow> options \<Rightarrow> string \<Rightarrow> string list \<Rightarrow> result + options" where
  "parse_args ev s [] = Inr s"
| "parse_args ev s (a # rest) =
     (if a \<noteq> [] \<and> hd a = CHR ''-'' \<and> tl a \<noteq> [] then short_opts ev s (tl a) rest
      else Inl (info True [] ([CHR 0x0A] @ ln (''fftGen: Unknown argument '' @ a) @ ln [])))"
| "short_opts ev s cur rest =
     (if cur = [] then parse_args ev s rest
      else
        (case checkOptions ev cur rest pOptions 0 s of
           (Stop r, po) \<Rightarrow> Inl r
         | (Ret ret s' adv, po) \<Rightarrow>
             if ret = 1 then parse_args ev s' (if adv then tl rest else rest)
             else if ret = - 1 then
               short_opts ev s' (tl (drop (length (shOpt (pOptions ! po)) - 1) cur)) rest
             else if cur = ''-version'' \<or> take 1 cur = ''V'' then
               Inl \<lparr>status = EXIT_SUCCESS, out = ln ''fftGen V1'', err = []\<rparr>
             else if cur = ''h'' \<or> cur = ''-help'' \<or> take 1 cur = ''?'' then
               Inl (info False [] [])
             else
               Inl (info True [] ([CHR 0x0A] @ ln (''fftGen: Unknown option -'' @ cur) @ ln []))))"
  by pat_completeness auto
termination
  apply (relation "measure (\<lambda>x. case x of
          Inl (ev, s, args) \<Rightarrow> sum_list (map (\<lambda>a. length a + 2) args)
        | Inr (ev, s, cur, rest) \<Rightarrow> length cur + 1 + sum_list (map (\<lambda>a. length a + 2) rest))")
    apply (auto split: list.splits)
  subgoal for ev s cur rest
    by (cases rest) auto
  done

definition opts0 :: options where
  "opts0 = \<lparr>o_n = 0, o_inv = 0, o_realIn = 0, o_realOut = 0, o_symmIn = 0, o_symmOut = 0,
            o_license = 0, o_verbose = 0\<rparr>"

text \<open>The lines that \<open>if (verbose > 0) { ... }\<close> writes to \<open>stderr\<close>.\<close>

definition verbose_text :: "options \<Rightarrow> string" where
  "verbose_text s =
     (if o_verbose s > 0 then
        ln (''Number of points '' @ dec_int (sint (o_n s))) @
        (if o_inv s \<noteq> 0 then ln ''Generating code for inverse FFT''
         else ln ''Generating code for standard (not inverse) FFT'') @
        (if o_realIn s \<noteq> 0 then ln ''Optimize for real only input'' else []) @
        (if o_realOut s \<noteq> 0 then ln ''Optimize for real only output'' else []) @
        (if o_symmIn s \<noteq> 0 then ln ''Optimize for symmetry at input'' else []) @
        (if o_symmOut s \<noteq> 0 then ln ''Optimize for symmetry at output'' else []) @
        (if o_license s \<noteq> 0 then ln ''Include a GPL 3 note into the code'' else [])
      else [])"

definition flags_of :: "options \<Rightarrow> flags" where
  "flags_of s = \<lparr>inv = o_inv s \<noteq> 0, realIn = o_realIn s \<noteq> 0, realOut = o_realOut s \<noteq> 0,
                 symm_in = o_symmIn s \<noteq> 0, symmOut = o_symmOut s \<noteq> 0\<rparr>"

text \<open>
  \<open>main\<close> after the command line: the verbose lines, the two checks of \<open>n\<close>, the
  licence note and the call of \<open>fftGen\<close>, which ends the program when \<open>malloc\<close> fails.
  A run that stops in a fault of the planner has no exit status.

  The test \<open>n & (n-1)\<close> is computed on 32-bit words. For \<open>n = -2147483648\<close> the
  subtraction wraps around to \<open>2147483647\<close> and the test finds 0, so this \<open>n\<close> goes on
  to \<open>fftGen\<close> like a power of two. There \<open>malloc (sizeof(int)*n)\<close> converts the negative
  \<open>n\<close> to \<open>size_t\<close> and asks for \<open>2^64 - 2^33\<close> bytes (with a \<open>size_t\<close> of 64 bits), more
  than the address space holds: \<open>malloc\<close> returns \<open>NULL\<close> and the program ends there.
\<close>

definition main_body :: "env \<Rightarrow> options \<Rightarrow> fault + result" where
  "main_body ev s =
     (let e0 = verbose_text s in
      if o_n s = 0 then
        Inr (info True [] (e0 @ [CHR 0x0A] @ ln ''fftGen: No number of points specified.''))
      else if o_n s AND (o_n s - 1) \<noteq> 0 then
        Inr (info True []
               (e0 @ [CHR 0x0A] @
                ln (''fftGen: Number of points '' @ dec_int (sint (o_n s)) @
                    '' is not a power of two.'')))
      else
        (let o0 = (if o_license s \<noteq> 0 then licenseText else []) @ header in
         if sint (o_n s) < 0 \<or> \<not> nzi_alloc ev \<or> \<not> swap_alloc ev then
           Inr \<lparr>status = EXIT_FAILURE, out = o0,
                err = e0 @ [CHR 0x0A] @
                      ln (''fftGen: Error allocating memory: '' @ strerror_text ev)\<rparr>
         else
           (case fftGen (nat (sint (o_n s))) (flags_of s) of
              Inl e \<Rightarrow> Inl e
            | Inr ss \<Rightarrow>
                Inr \<lparr>status = EXIT_SUCCESS,
                     out = o0 @ render_all (fmt_e ev) ss @ footer, err = e0\<rparr>)))"

definition main :: "env \<Rightarrow> string list \<Rightarrow> fault + result" where
  "main ev argv =
     (case parse_args ev opts0 argv of
        Inl r \<Rightarrow> Inr r
      | Inr s \<Rightarrow> main_body ev s)"


section \<open>The meaning of the emitted statements\<close>

text \<open>
  The lines are C statements over the arrays \<open>xr\<close> and \<open>xi\<close> and the scalars \<open>tr\<close>
  and \<open>ti\<close> that the including function declares. Their values are real numbers
  here; a statement reads and writes the elements it names.
\<close>

record mem =
  xr :: "real list"
  xi :: "real list"
  tr :: real
  ti :: real

fun get_arr :: "arr \<Rightarrow> mem \<Rightarrow> real list" where
  "get_arr XR s = xr s"
| "get_arr XI s = xi s"

fun put_arr :: "arr \<Rightarrow> nat \<Rightarrow> real \<Rightarrow> mem \<Rightarrow> mem" where
  "put_arr XR i v s = s\<lparr>xr := (xr s)[i := v]\<rparr>"
| "put_arr XI i v s = s\<lparr>xi := (xi s)[i := v]\<rparr>"

fun get_tmp :: "arr \<Rightarrow> mem \<Rightarrow> real" where
  "get_tmp XR s = tr s"
| "get_tmp XI s = ti s"

fun put_tmp :: "arr \<Rightarrow> real \<Rightarrow> mem \<Rightarrow> mem" where
  "put_tmp XR v s = s\<lparr>tr := v\<rparr>"
| "put_tmp XI v s = s\<lparr>ti := v\<rparr>"

fun pval :: "mem \<Rightarrow> piece \<Rightarrow> real" where
  "pval s (Lit w a j) = w * (get_arr a s ! j)"
| "pval s (Plain a j) = get_arr a s ! j"
| "pval s (Minus a j) = - (get_arr a s ! j)"
| "pval s (SubLit w a j) = - (w * (get_arr a s ! j))"
| "pval s (AddLit w a j) = w * (get_arr a s ! j)"
| "pval s (Add a j) = get_arr a s ! j"
| "pval s (Sub a j) = - (get_arr a s ! j)"

fun exec :: "stmt \<Rightarrow> mem \<Rightarrow> mem" where
  "exec (FillR i j) s = put_arr XR i (xr s ! j) s"
| "exec (Copy a i j) s = put_arr a i (get_arr a s ! j) s"
| "exec (CopyNeg i j) s = put_arr XI i (- (xi s ! j)) s"
| "exec (Save a i) s = put_tmp a (get_arr a s ! i) s"
| "exec (Load a i) s = put_arr a i (get_tmp a s) s"
| "exec (SetT a ps) s = put_tmp a (sum_list (map (pval s) ps)) s"
| "exec (SubT a i j) s = put_arr a i (get_arr a s ! j - get_tmp a s) s"
| "exec (NegT i) s = put_arr XI i (- ti s) s"
| "exec (Zero i) s = put_arr XI i 0 s"
| "exec (AddT a i) s = put_arr a i (get_arr a s ! i + get_tmp a s) s"
| "exec Blank s = s"

definition run :: "stmt list \<Rightarrow> mem \<Rightarrow> mem" where
  "run ss s = fold exec ss s"

section \<open>The bit reversal\<close>

text \<open>
  The reversal of the lowest \<open>p\<close> bits of \<open>x\<close>, written from the words of the
  claims and not from the code: the lowest bit of \<open>x\<close> becomes bit \<open>p - 1\<close>, and the
  other bits follow in the same way.
\<close>

fun bit_reversal :: "nat \<Rightarrow> nat \<Rightarrow> nat" where
  "bit_reversal 0 x = 0"
| "bit_reversal (Suc p) x = 2 ^ p * (x mod 2) + bit_reversal p (x div 2)"

text \<open>The record the standard binary inversion makes for the index \<open>x\<close>.\<close>

definition plain_swap :: "nat \<Rightarrow> nat \<Rightarrow> SWAP" where
  "plain_swap p x = \<lparr>m = x, mr = bit_reversal p x, m_new = 0, mr_new = 0, symmIn = False\<rparr>"

text \<open>An array after the bit reversal permutation.\<close>

definition permuted :: "nat \<Rightarrow> 'a list \<Rightarrow> 'a list" where
  "permuted p xs = map (\<lambda>i. xs ! bit_reversal p i) [0..<2 ^ p]"

section \<open>Notions used in the properties\<close>

text \<open>
  A slot of \<open>swap[]\<close> whose source fields were never written holds 0 in both; a
  record that does not use the symmetry is such a slot.
\<close>

definition slot_ok :: "SWAP \<Rightarrow> bool" where
  "slot_ok r = (symmIn r \<or> (m_new r = 0 \<and> mr_new r = 0))"

definition fresh_from :: "nat \<Rightarrow> SWAP list \<Rightarrow> bool" where
  "fresh_from ns sw =
     (\<forall>i. ns \<le> i \<and> i < length sw \<longrightarrow> m_new (sw ! i) = 0 \<and> mr_new (sw ! i) = 0)"



text \<open>
  The lines that give \<open>xi[i]\<close> a value the emitter does not know to be zero; the
  line \<open>xi[i] = 0.0;\<close> is not one of them.
\<close>

fun assigns_xi :: "stmt \<Rightarrow> nat \<Rightarrow> bool" where
  "assigns_xi (SubT XI j j') i = (j = i)"
| "assigns_xi (NegT j) i = (j = i)"
| "assigns_xi (Copy XI j j') i = (j = i)"
| "assigns_xi (CopyNeg j j') i = (j = i)"
| "assigns_xi (Load XI j) i = (j = i)"
| "assigns_xi (AddT XI j) i = (j = i)"
| "assigns_xi s i = False"

text \<open>
  The records of the standard binary inversion for the indices below \<open>mm\<close>, in
  increasing order of the index.
\<close>

definition std_records :: "nat \<Rightarrow> nat \<Rightarrow> SWAP list" where
  "std_records p mm = map (plain_swap p) (filter (\<lambda>x. x < bit_reversal p x) [1..<mm])"

text \<open>The exchange of two elements, and the exchanges for the indices below \<open>mm\<close>.\<close>

definition swap_at :: "nat \<Rightarrow> nat \<Rightarrow> 'a list \<Rightarrow> 'a list" where
  "swap_at a b xs = xs[a := xs ! b, b := xs ! a]"

definition swaps_upto :: "nat \<Rightarrow> nat \<Rightarrow> 'a list \<Rightarrow> 'a list" where
  "swaps_upto p mm xs =
     fold (\<lambda>x ys. if x < bit_reversal p x then swap_at x (bit_reversal p x) ys else ys)
       [1..<mm] xs"

text \<open>
  The exit code of a status: \<open>EXIT_SUCCESS\<close> is 0 and \<open>EXIT_FAILURE\<close> is 1 in the C
  library the program is built with.
\<close>

definition exit_code :: "exit_status \<Rightarrow> int" where
  "exit_code x = (case x of EXIT_SUCCESS \<Rightarrow> 0 | EXIT_FAILURE \<Rightarrow> 1)"

text \<open>
  The two ways in which the command line ends the program with success: the
  request for the version and the request for the usage.
\<close>

definition version_result :: result where
  "version_result = \<lparr>status = EXIT_SUCCESS, out = ln ''fftGen V1'', err = []\<rparr>"

definition help_result :: result where
  "help_result = info False [] []"

text \<open>A run that ends with the failure status and a message on the standard error.\<close>

definition failed :: "result \<Rightarrow> bool" where
  "failed r = (exit_code (status r) \<noteq> 0 \<and> err r \<noteq> [])"

text \<open>
  The indices a record reads and the indices it writes. A record that uses the symmetry
  is printed as two copies from \<open>m_new\<close> and \<open>mr_new\<close>; any other record is the exchange
  of \<open>m\<close> and \<open>mr\<close>. In \<open>no_stale_read\<close> no record reads an index that a record before
  it in the list has written.
\<close>

definition reads :: "SWAP \<Rightarrow> nat set" where
  "reads r = (if symmIn r then {m_new r, mr_new r} else {m r, mr r})"

definition writes :: "SWAP \<Rightarrow> nat set" where
  "writes r = {m r, mr r}"

definition no_stale_read :: "SWAP list \<Rightarrow> bool" where
  "no_stale_read rs = sorted_wrt (\<lambda>a b. reads b \<inter> writes a = {}) rs"

text \<open>
  A record as the planner fills it in for an index below \<open>mm\<close>, for \<open>n = 2 ^ p\<close>.
\<close>

definition planned :: "nat \<Rightarrow> nat \<Rightarrow> SWAP \<Rightarrow> bool" where
  "planned p mm r =
     (m r < mm \<and> mr r = bit_reversal p (m r) \<and> m r < mr r \<and>
      (symmIn r \<longleftrightarrow> 2 ^ (p - 1) < mr r) \<and>
      (symmIn r \<longrightarrow> m_new r = (if 2 ^ (p - 1) < m r then 2 ^ p - m r else m r) \<and>
                   mr_new r = 2 ^ p - mr r))"

text \<open>
  What the lines of one record do to one of the two arrays: for \<open>xr\<close> (\<open>neg\<close> false)
  and for \<open>xi\<close> (\<open>neg\<close> true), where a copy from the counterpart of an index above
  \<open>n/2\<close> changes the sign. \<open>hermitian\<close> is an array whose upper half holds the
  Hermitian counterparts of the lower half, and \<open>filled\<close> the memory with both arrays
  filled in this way.
\<close>

definition sgn_at :: "nat \<Rightarrow> bool \<Rightarrow> nat \<Rightarrow> real \<Rightarrow> real" where
  "sgn_at n neg i v = (if neg \<and> n div 2 < i then - v else v)"

definition rec_eff :: "nat \<Rightarrow> bool \<Rightarrow> SWAP \<Rightarrow> real list \<Rightarrow> real list" where
  "rec_eff n neg r xs =
     (if symmIn r then
        (let ys = xs[mr r := sgn_at n neg (m r) (xs ! m_new r)]
         in ys[m r := sgn_at n neg (mr r) (ys ! mr_new r)])
      else swap_at (m r) (mr r) xs)"

definition hermitian :: "nat \<Rightarrow> bool \<Rightarrow> real list \<Rightarrow> real list" where
  "hermitian n neg xs =
     map (\<lambda>i. if n div 2 < i then sgn_at n neg i (xs ! (n - i)) else xs ! i) [0..<n]"

definition filled :: "nat \<Rightarrow> mem \<Rightarrow> mem" where
  "filled n s = s\<lparr>xr := hermitian n False (xr s), xi := hermitian n True (xi s)\<rparr>"


declare halve_k.simps [simp del] shift_up.simps [simp del] plan_loop.simps [simp del]
  point_loop.simps [simp del] group_loop.simps [simp del] stage_loop.simps [simp del]
  dec_nat.simps [simp del]

section \<open>The thresholds of the twiddle factors\<close>

lemma epsMOne_neg: "epsMOne n = - epsOne n"
  by (simp add: epsMOne_def epsOne_def)

lemma eps_lt_epsOne:
  assumes "8 \<le> n"
  shows "eps n < epsOne n"
proof -
  let ?t = "pi / real (n div 2)"
  have "4 \<le> n div 2" using assms by linarith
  then have d: "4 \<le> real (n div 2)" by (metis of_nat_le_iff of_nat_numeral)
  have t0: "0 < ?t" using d by simp
  have "?t \<le> pi / 4" using d by (intro divide_left_mono) auto
  then have t1: "?t < pi / 2" using pi_gt_zero by linarith
  have c: "0 < cos ?t" using t0 t1 by (simp add: cos_gt_zero)
  have "sin ?t < 1 + cos ?t" using c sin_le_one[of ?t] by linarith
  then show ?thesis unfolding eps_def epsOne_def by (simp add: field_simps)
qed

lemma eps_nonneg:
  assumes "8 \<le> n"
  shows "0 \<le> eps n"
proof -
  have "4 \<le> n div 2" using assms by linarith
  then have d: "4 \<le> real (n div 2)" by (metis of_nat_le_iff of_nat_numeral)
  have "0 \<le> pi / real (n div 2)" using d by simp
  moreover have "pi / real (n div 2) \<le> pi" using d by (simp add: divide_le_eq)
  ultimately have "0 \<le> sin (pi / real (n div 2))" by (rule sin_ge_zero)
  then show ?thesis by (simp add: eps_def)
qed

text \<open>
  Claim C4, as the code has it. The three comparisons are nested, the test against
  \<open>eps\<close> outermost: a value is ZERO iff \<open>|w| \<le> eps\<close>; it is PLUS_ONE iff
  \<open>|w| > eps\<close> and \<open>w \<ge> epsOne\<close>; it is MINUS_ONE iff \<open>|w| > eps\<close>, \<open>w < epsOne\<close> and
  \<open>w \<le> epsMOne\<close>; every other value is POS or NEG by its sign; and
  \<open>epsMOne = - epsOne\<close>. From \<open>n = 8\<close> on, where \<open>eps < epsOne\<close>, PLUS_ONE is
  exactly \<open>w \<ge> epsOne\<close> and MINUS_ONE exactly \<open>w \<le> epsMOne\<close>, as the claim says.
\<close>

theorem classify_thresholds:
  "(let c = classify (eps n) (epsOne n) (epsMOne n) w in
     epsMOne n = - epsOne n \<and>
     (c = ZERO \<longleftrightarrow> \<bar>w\<bar> \<le> eps n) \<and>
     (c = PLUS_ONE \<longleftrightarrow> \<bar>w\<bar> > eps n \<and> w \<ge> epsOne n) \<and>
     (c = MINUS_ONE \<longleftrightarrow> \<bar>w\<bar> > eps n \<and> w < epsOne n \<and> w \<le> epsMOne n) \<and>
     (c = POS \<longleftrightarrow> \<bar>w\<bar> > eps n \<and> epsMOne n < w \<and> w < epsOne n \<and> 0 \<le> w) \<and>
     (c = NEG \<longleftrightarrow> \<bar>w\<bar> > eps n \<and> epsMOne n < w \<and> w < epsOne n \<and> w < 0) \<and>
     (8 \<le> n \<longrightarrow> (c = PLUS_ONE \<longleftrightarrow> w \<ge> epsOne n) \<and> (c = MINUS_ONE \<longleftrightarrow> w \<le> epsMOne n)))"
proof -
  have neg: "epsMOne n = - epsOne n" by (rule epsMOne_neg)
  have big: "8 \<le> n \<Longrightarrow> 0 \<le> eps n \<and> eps n < epsOne n"
    using eps_nonneg eps_lt_epsOne by blast
  show ?thesis
    unfolding Let_def classify_def using neg big by auto
qed

theorem classify_thresholds_witness:
  "(8::nat) \<le> 8 \<and> (classify (eps 8) (epsOne 8) (epsMOne 8) 1 = PLUS_ONE \<longleftrightarrow> 1 \<ge> epsOne 8)"
proof -
  have "(8::nat) \<le> 8" by simp
  with classify_thresholds[of 8 1] show ?thesis unfolding Let_def by blast
qed

text \<open>
  For \<open>n = 2\<close> both \<open>eps\<close> and \<open>epsOne\<close> are 0. The value 0, which is \<open>wi\<close> in the only
  stage, is at least \<open>epsOne\<close> and is classified as ZERO, not as PLUS_ONE.
\<close>

theorem classify_counterexample:
  "\<not> (classify (eps 2) (epsOne 2) (epsMOne 2) 0 = PLUS_ONE \<longleftrightarrow> (0::real) \<ge> epsOne 2)"
  by (simp add: classify_def eps_def epsOne_def epsMOne_def)


section \<open>The planner keeps its array in order\<close>

lemma length_shift_up [simp]: "length (shift_up sw ii i) = length sw"
proof (induction sw ii i rule: shift_up.induct)
  case (1 sw ii i)
  then show ?case by (subst shift_up.simps) simp
qed

lemma shift_up_above: "ii < j \<Longrightarrow> shift_up sw ii i ! j = sw ! j"
proof (induction sw ii i rule: shift_up.induct)
  case (1 sw ii i)
  show ?case
  proof (cases "ii > i")
    case True
    with 1 show ?thesis by (subst shift_up.simps) simp
  next
    case False
    then show ?thesis by (subst shift_up.simps) simp
  qed
qed

lemma shift_up_pred:
  "ii < length sw \<Longrightarrow> \<forall>r \<in> set sw. P r \<Longrightarrow> r \<in> set (shift_up sw ii i) \<Longrightarrow> P r"
proof (induction sw ii i rule: shift_up.induct)
  case (1 sw ii i)
  show ?case
  proof (cases "ii > i")
    case True
    have in_sw: "sw ! (ii - 1) \<in> set sw" using "1.prems"(1) by simp
    have all': "\<forall>r \<in> set (sw[ii := sw ! (ii - 1)]). P r"
      using "1.prems"(2) in_sw set_update_subset_insert[of sw ii "sw ! (ii - 1)"] by auto
    have "r \<in> set (shift_up (sw[ii := sw ! (ii - 1)]) (ii - 1) i)"
      using "1.prems"(3) True by (subst (asm) shift_up.simps) simp
    then show ?thesis using "1.IH"[OF True _ all'] "1.prems"(1) by simp
  next
    case False
    have "shift_up sw ii i = sw" using False by (subst shift_up.simps) simp
    then show ?thesis using "1.prems" by simp
  qed
qed

lemma set_update_pred:
  "\<forall>r \<in> set sw. P r \<Longrightarrow> P x \<Longrightarrow> \<forall>r \<in> set (sw[i := x]). P r"
  using set_update_subset_insert[of sw i x] by auto

lemma length_add_swap [simp]: "length (add_swap n s mm mmr ns sw) = length sw"
  by (simp add: add_swap_def Let_def)

lemma SWAP_all_fields:
  "(r::SWAP)\<lparr>m := a, mr := b, m_new := c, mr_new := d, symmIn := e\<rparr> =
   \<lparr>m = a, mr = b, m_new = c, mr_new = d, symmIn = e\<rparr>"
  by (cases r) simp

lemma add_swap_nosymm:
  "\<not> s \<or> (mm \<le> n div 2 \<and> mmr \<le> n div 2) \<Longrightarrow> ns < length sw \<Longrightarrow>
   add_swap n s mm mmr ns sw = sw[ns := (sw ! ns)\<lparr>m := mm, mr := mmr, symmIn := False\<rparr>]"
  by (auto simp: add_swap_def Let_def)

lemma scan_back_le: "scan_back sw x k \<le> k"
  by (induction k) auto

lemma add_swap_symm:
  assumes "s" "\<not> (mm \<le> n div 2 \<and> mmr \<le> n div 2)" "ns < length sw"
  shows "\<exists>i\<le>ns - 1. add_swap n s mm mmr ns sw =
           (if i > 0 then
              (shift_up (sw[ns := \<lparr>m = mm, mr = mmr,
                            m_new = (if mm > n div 2 then n - mm else mm),
                            mr_new = (if mmr > n div 2 then n - mmr else mmr), symmIn = True\<rparr>]) ns i)
              [i := \<lparr>m = mm, mr = mmr,
                            m_new = (if mm > n div 2 then n - mm else mm),
                            mr_new = (if mmr > n div 2 then n - mmr else mmr), symmIn = True\<rparr>]
            else sw[ns := \<lparr>m = mm, mr = mmr,
                            m_new = (if mm > n div 2 then n - mm else mm),
                            mr_new = (if mmr > n div 2 then n - mmr else mmr), symmIn = True\<rparr>])"
proof -
  let ?R = "\<lparr>m = mm, mr = mmr, m_new = (if mm > n div 2 then n - mm else mm),
             mr_new = (if mmr > n div 2 then n - mmr else mmr), symmIn = True\<rparr>"
  have r: "(sw[ns := (sw ! ns)\<lparr>m := mm, mr := mmr\<rparr>])[ns := (sw[ns := (sw ! ns)\<lparr>m := mm, mr := mmr\<rparr>] ! ns)
             \<lparr>m_new := (if mm > n div 2 then n - mm else mm),
              mr_new := (if mmr > n div 2 then n - mmr else mmr), symmIn := True\<rparr>] = sw[ns := ?R]"
    using assms(3) by (simp add: SWAP_all_fields)
  define i_m where "i_m = (if mm > n div 2 then scan_back (sw[ns := ?R]) (if mm > n div 2 then n - mm else mm) (ns - 1) else 0)"
  define i_mr where "i_mr = (if mmr > n div 2 then scan_back (sw[ns := ?R]) (if mmr > n div 2 then n - mmr else mmr) (ns - 1) else 0)"
  define i where "i = (if i_mr > 0 \<and> i_m > 0 then (if i_mr > i_m then i_m else i_mr)
                       else if i_m > 0 then i_m else i_mr)"
  have "i_m \<le> ns - 1" "i_mr \<le> ns - 1"
    unfolding i_m_def i_mr_def using scan_back_le by auto
  then have le: "i \<le> ns - 1" unfolding i_def by auto
  have "add_swap n s mm mmr ns sw =
           (if i > 0 then (shift_up (sw[ns := ?R]) ns i)[i := ?R] else sw[ns := ?R])"
    unfolding add_swap_def Let_def r i_def i_m_def i_mr_def using assms(1,2)
    by (simp only: if_True if_False not_not simp_thms)
  with le show ?thesis by blast
qed


lemma add_swap_ok:
  assumes "ns < length sw" "\<forall>r \<in> set sw. slot_ok r" "fresh_from ns sw"
  shows "\<forall>r \<in> set (add_swap n s mm mmr ns sw). slot_ok r"
proof (cases "\<not> s \<or> (mm \<le> n div 2 \<and> mmr \<le> n div 2)")
  case True
  have "slot_ok ((sw ! ns)\<lparr>m := mm, mr := mmr, symmIn := False\<rparr>)"
    using assms(1,3) by (simp add: fresh_from_def slot_ok_def)
  then show ?thesis
    unfolding add_swap_nosymm[OF True assms(1)] by (rule set_update_pred[OF assms(2)])
next
  case False
  let ?R = "\<lparr>m = mm, mr = mmr, m_new = (if mm > n div 2 then n - mm else mm),
             mr_new = (if mmr > n div 2 then n - mmr else mmr), symmIn = True\<rparr>"
  have R: "slot_ok ?R" by (simp add: slot_ok_def)
  have ok2: "\<forall>r \<in> set (sw[ns := ?R]). slot_ok r"
    by (rule set_update_pred[OF assms(2) R])
  have len2: "ns < length (sw[ns := ?R])" using assms(1) by simp
  have sh: "\<forall>r \<in> set (shift_up (sw[ns := ?R]) ns i). slot_ok r" for i
    using shift_up_pred[OF len2 ok2] by blast
  have ins: "\<forall>r \<in> set ((shift_up (sw[ns := ?R]) ns i)[i := ?R]). slot_ok r" for i
    by (rule set_update_pred[OF sh R])
  from False have s: "s" and big: "\<not> (mm \<le> n div 2 \<and> mmr \<le> n div 2)" by auto
  obtain i where "add_swap n s mm mmr ns sw =
      (if i > 0 then (shift_up (sw[ns := ?R]) ns i)[i := ?R] else sw[ns := ?R])"
    using add_swap_symm[OF s big assms(1)] by blast
  then show ?thesis using ok2 ins[of i] by (cases "i > 0") simp_all
qed

lemma add_swap_fresh:
  assumes "ns < length sw" "fresh_from ns sw"
  shows "fresh_from (Suc ns) (add_swap n s mm mmr ns sw)"
proof (cases "\<not> s \<or> (mm \<le> n div 2 \<and> mmr \<le> n div 2)")
  case True
  show ?thesis
    unfolding add_swap_nosymm[OF True assms(1)] using assms(2)
    by (simp add: fresh_from_def)
next
  case False
  let ?R = "\<lparr>m = mm, mr = mmr, m_new = (if mm > n div 2 then n - mm else mm),
             mr_new = (if mmr > n div 2 then n - mmr else mmr), symmIn = True\<rparr>"
  from False have s: "s" and big: "\<not> (mm \<le> n div 2 \<and> mmr \<le> n div 2)" by auto
  obtain i where le: "i \<le> ns - 1" and i: "add_swap n s mm mmr ns sw =
      (if i > 0 then (shift_up (sw[ns := ?R]) ns i)[i := ?R] else sw[ns := ?R])"
    using add_swap_symm[OF s big assms(1)] by blast
  show ?thesis
  proof (cases "i > 0")
    case False
    then show ?thesis using i assms(2) by (simp add: fresh_from_def)
  next
    case True
    have "m_new (((shift_up (sw[ns := ?R]) ns i)[i := ?R]) ! j) = 0 \<and>
          mr_new (((shift_up (sw[ns := ?R]) ns i)[i := ?R]) ! j) = 0"
      if j: "Suc ns \<le> j" "j < length sw" for j
    proof -
      have "j \<noteq> i" using le j by linarith
      then show ?thesis using j assms(2) by (simp add: shift_up_above fresh_from_def)
    qed
    then show ?thesis using i True by (simp add: fresh_from_def)
  qed
qed


lemma plan_loop_invariant:
  assumes step: "\<And>mm st mmr. I mm st \<Longrightarrow> mm < n \<Longrightarrow> mmr > mm \<Longrightarrow> next_mr n (cur_mr st) = Inr mmr \<Longrightarrow>
             I (mm + 1) \<lparr>cur_mr = mmr, nSwap = nSwap st + 1,
                         swap = add_swap n s mm mmr (nSwap st) (swap st)\<rparr>"
    and skip: "\<And>mm st mmr. I mm st \<Longrightarrow> mm < n \<Longrightarrow> \<not> mmr > mm \<Longrightarrow> next_mr n (cur_mr st) = Inr mmr \<Longrightarrow>
             I (mm + 1) (st\<lparr>cur_mr := mmr\<rparr>)"
  shows "I mm st \<Longrightarrow> plan_loop n s mm st = Inr st' \<Longrightarrow> I (max mm n) st'"
proof (induction "n - mm" arbitrary: mm st)
  case 0
  then have "\<not> mm < n" by simp
  then have "st' = st" using "0.prems"(2) by (subst (asm) plan_loop.simps) simp
  moreover have "max mm n = mm" using \<open>\<not> mm < n\<close> by simp
  ultimately show ?case using "0.prems"(1) by simp
next
  case (Suc d)
  then have lt: "mm < n" by simp
  then obtain mmr where nx: "next_mr n (cur_mr st) = Inr mmr"
    using Suc.prems(2) by (subst (asm) plan_loop.simps) (auto split: sum.splits)
  let ?st1 = "(if mmr > mm then
                \<lparr>cur_mr = mmr, nSwap = nSwap st + 1,
                 swap = add_swap n s mm mmr (nSwap st) (swap st)\<rparr>
              else st\<lparr>cur_mr := mmr\<rparr>)"
  have run: "plan_loop n s (mm + 1) ?st1 = Inr st'"
    using Suc.prems(2) lt nx by (subst (asm) plan_loop.simps) simp
  have I1: "I (mm + 1) ?st1"
    using step[OF Suc.prems(1) lt _ nx] skip[OF Suc.prems(1) lt _ nx] by auto
  have d: "d = n - (mm + 1)" using Suc.hyps(2) by simp
  have "I (max (mm + 1) n) st'"
    by (rule Suc.hyps(1)[OF d I1 run])
  moreover have "max (mm + 1) n = max mm n" using lt by simp
  ultimately show ?case by simp
qed


lemma planner_slots:
  assumes "planner n s = Inr st"
  shows "\<forall>r \<in> set (swap st). slot_ok r"
proof -
  let ?I = "\<lambda>mm st. length (swap st) = n \<and> nSwap st < mm \<and>
                    (\<forall>r \<in> set (swap st). slot_ok r) \<and> fresh_from (nSwap st) (swap st)"
  let ?st0 = "\<lparr>cur_mr = 0, nSwap = 0, swap = swap_init n\<rparr>"
  have init: "?I 1 ?st0"
    by (simp add: swap_init_def slot_ok_def fresh_from_def)
  have run: "plan_loop n s 1 ?st0 = Inr st"
    using assms by (simp add: planner_def)
  have "?I (max 1 n) st"
  proof (rule plan_loop_invariant[where I = ?I, OF _ _ init run])
    fix mm st mmr
    assume I: "?I mm st" and lt: "mm < n"
    then have ns: "nSwap st < length (swap st)" by simp
    show "?I (mm + 1) \<lparr>cur_mr = mmr, nSwap = nSwap st + 1,
                        swap = add_swap n s mm mmr (nSwap st) (swap st)\<rparr>"
      using I add_swap_ok[OF ns, of n s mm mmr] add_swap_fresh[OF ns, of n s mm mmr]
      by simp
    show "?I (mm + 1) (st\<lparr>cur_mr := mmr\<rparr>)"
      using I by simp
  qed
  then show ?thesis by simp
qed

text \<open>
  Claim C9, as the code has it. A record that does not use the symmetry never has
  its source fields written: they keep the 0 of the initialisation loop (they do
  not hold \<open>m\<close> and \<open>mr\<close>), and the lines printed for such a record do not depend
  on them.
\<close>

theorem nonsymm_sources_unused:
  assumes "planner n s = Inr st" and "r \<in> set (records st)" and "\<not> symmIn r"
  shows "m_new r = 0 \<and> mr_new r = 0 \<and>
         swap_stmts n' ri (r\<lparr>m_new := a, mr_new := b\<rparr>) = swap_stmts n' ri r"
proof -
  have "r \<in> set (swap st)"
    using assms(2) by (auto simp: records_def dest: in_set_takeD)
  then have "slot_ok r" using planner_slots[OF assms(1)] by blast
  then show ?thesis using assms(3) by (simp add: slot_ok_def swap_stmts_def)
qed

theorem nonsymm_sources_unused_witness:
  "(case planner 8 True of
      Inl e \<Rightarrow> False
    | Inr st \<Rightarrow>
        \<lparr>m = 1, mr = 4, m_new = 0, mr_new = 0, symmIn = False\<rparr> \<in> set (records st) \<and>
        m_new \<lparr>m = 1, mr = 4, m_new = 0, mr_new = 0, symmIn = False\<rparr> = 0 \<and> 
        swap_stmts 8 False \<lparr>m = 1, mr = 4, m_new = 1, mr_new = 4, symmIn = False\<rparr> =
          [Save XR 1, Copy XR 1 4, Load XR 4, Save XI 1, Copy XI 1 4, Load XI 4])"
proof -
  let ?R = "\<lparr>m = 1, mr = 4, m_new = 0, mr_new = 0, symmIn = False\<rparr>"
  have e: "(case planner 8 True of Inl e \<Rightarrow> False | Inr st \<Rightarrow> ?R \<in> set (records st))"
    by code_simp
  then obtain st where st: "planner 8 True = Inr st" and mem: "?R \<in> set (records st)"
    by (cases "planner 8 True") auto
  have ns: "\<not> symmIn ?R" by simp
  have "swap_stmts 8 False (?R\<lparr>m_new := 1, mr_new := 4\<rparr>) = swap_stmts 8 False ?R"
    using nonsymm_sources_unused[OF st mem ns, where n' = 8 and ri = False and a = 1 and b = 4]
    by blast
  then show ?thesis using st mem by (simp add: swap_stmts_def)
qed

text \<open>
  For \<open>n = 4\<close> without the input symmetry the planner has the one record
  \<open>(1, 2)\<close>, and its source fields are 0, not 1 and 2.
\<close>

theorem nonsymm_sources_counterexample:
  "\<not> (case planner 4 False of
        Inl e \<Rightarrow> True
      | Inr st \<Rightarrow>
          list_all (\<lambda>r. symmIn r \<or> (m_new r = m r \<and> mr_new r = mr r)) (records st))"
  by code_simp


section \<open>The driver: one point, and the verbose flag\<close>

lemma fftGen_one: "fftGen (Suc 0) f = Inr [Blank]"
  by (simp add: fftGen_def planner_def plan_loop.simps perm_emit_def records_def transform_def
      stage_loop.simps fill_stmts_def swap_init_def)

text \<open>
  Claim C6, as the code has it. With \<open>n = 1\<close>, any flags and memory for the two
  arrays, the program runs to its end, exits with success and writes to the
  standard output the licence note when it is asked for, and after it one newline
  character: the \<open>putchar\<close> that closes the permutation phase. No statement is
  written. The standard error holds the verbose lines only.
\<close>

theorem one_point_output:
  assumes "nzi_alloc ev" and "swap_alloc ev" and "o_n s = 1"
  shows "main_body ev s =
           Inr \<lparr>status = EXIT_SUCCESS,
                out = (if o_license s \<noteq> 0 then licenseText else []) @ [CHR 0x0A],
                err = verbose_text s\<rparr>"
  using assms
  by (simp add: main_body_def Let_def fftGen_one render_all_def ln_def header_def footer_def)

theorem one_point_output_witness:
  "main_body \<lparr>scan_i = (\<lambda>s. None), fmt_e = (\<lambda>w. []), nzi_alloc = True, swap_alloc = True,
              strerror_text = []\<rparr>
     (opts0\<lparr>o_n := 1, o_license := 1\<rparr>) =
   Inr \<lparr>status = EXIT_SUCCESS, out = licenseText @ [CHR 0x0A], err = []\<rparr>"
  using one_point_output[of "\<lparr>scan_i = (\<lambda>s. None), fmt_e = (\<lambda>w. []), nzi_alloc = True,
      swap_alloc = True, strerror_text = []\<rparr>" "opts0\<lparr>o_n := 1, o_license := 1\<rparr>"]
  by (simp add: opts0_def verbose_text_def)

text \<open>
  With \<open>n = 1\<close> and no flag the standard output is not empty: it holds the newline.
\<close>

theorem one_point_counterexample:
  "(case main_body \<lparr>scan_i = (\<lambda>s. None), fmt_e = (\<lambda>w. []), nzi_alloc = True,
                     swap_alloc = True, strerror_text = []\<rparr> (opts0\<lparr>o_n := 1\<rparr>) of
      Inl e \<Rightarrow> False
    | Inr r \<Rightarrow> status r = EXIT_SUCCESS \<and> out r = [CHR 0x0A] \<and> out r \<noteq> [])"
  by (simp add: main_body_def Let_def fftGen_one render_all_def ln_def header_def footer_def
      opts0_def verbose_text_def)

text \<open>
  Claim C10. For the same point count and the same other options, the exit status
  and the standard output do not depend on the verbose level (nor does a fault of
  the planner): the verbose lines go to the standard error only.
\<close>

theorem verbose_independent:
  "(case main_body ev (s\<lparr>o_verbose := v\<rparr>) of
      Inl e \<Rightarrow> Inl e | Inr r \<Rightarrow> Inr (status r, out r)) =
   (case main_body ev s of
      Inl e \<Rightarrow> Inl e | Inr r \<Rightarrow> Inr (status r, out r))"
  by (simp add: main_body_def Let_def flags_of_def info_def split: sum.splits)

theorem verbose_independent_witness:
  "(case main_body \<lparr>scan_i = (\<lambda>s. None), fmt_e = (\<lambda>w. []), nzi_alloc = True,
                     swap_alloc = True, strerror_text = []\<rparr>
          (opts0\<lparr>o_n := 2, o_verbose := 1\<rparr>) of
      Inl e \<Rightarrow> Inl e | Inr r \<Rightarrow> Inr (status r, out r)) =
   Inr (EXIT_SUCCESS,
        render_all (\<lambda>w. [])
          [Blank, SetT XR [Plain XR 1], SetT XI [Plain XI 1], SubT XR 1 0, SubT XI 1 0,
           AddT XR 0, AddT XI 0])"
proof -
  let ?E = "\<lparr>scan_i = (\<lambda>s. None), fmt_e = (\<lambda>w. []), nzi_alloc = True,
             swap_alloc = True, strerror_text = []\<rparr>"
  have g: "fftGen 2 \<lparr>inv = False, realIn = False, realOut = False, symm_in = False,
                     symmOut = False\<rparr> =
           Inr [Blank, SetT XR [Plain XR 1], SetT XI [Plain XI 1], SubT XR 1 0, SubT XI 1 0,
                AddT XR 0, AddT XI 0]"
    by (simp add: fftGen_def planner_def plan_loop.simps halve_k.simps perm_emit_def
        records_def transform_def swap_init_def nzi_init_def next_mr_def eps_def epsOne_def
        epsMOne_def butterfly_def tr_line_def ti_line_def classify_def Let_def numeral_2_eq_2
        stage_loop.simps group_loop.simps point_loop.simps)
  have q: "main_body ?E (opts0\<lparr>o_n := 2\<rparr>) =
           Inr \<lparr>status = EXIT_SUCCESS,
                out = render_all (\<lambda>w. [])
                  [Blank, SetT XR [Plain XR 1], SetT XI [Plain XI 1], SubT XR 1 0,
                   SubT XI 1 0, AddT XR 0, AddT XI 0],
                err = []\<rparr>"
    by (simp add: main_body_def Let_def opts0_def verbose_text_def flags_of_def g header_def
        footer_def)
  show ?thesis
    using verbose_independent[where ev = ?E and s = "opts0\<lparr>o_n := 2\<rparr>" and v = 1] q by simp
qed


section \<open>The loops of the transform\<close>

text \<open>
  A property of the lines printed so far and of \<open>nzi\<close> that every pass through the
  loop body keeps holds after the three loops.
\<close>

lemma point_loop_invariant:
  assumes step: "\<And>ii out nzi. P (out, nzi) \<Longrightarrow>
            P (out @ fst (butterfly n f l wr wi ii (ii + k) nzi),
               snd (butterfly n f l wr wi ii (ii + k) nzi))"
  shows "P s \<Longrightarrow> P (point_loop n f l wr wi k istep nm i ii s)"
proof (induction "nm + 1 - i" arbitrary: i ii s)
  case 0
  then have "\<not> i \<le> nm" by simp
  then show ?case using "0.prems" by (cases s) (simp add: point_loop.simps)
next
  case (Suc d)
  then have le: "i \<le> nm" by simp
  obtain out nzi where s: "s = (out, nzi)" by (cases s)
  have d: "d = nm + 1 - (i + 1)" using Suc.hyps(2) by simp
  have P1: "P (out @ fst (butterfly n f l wr wi ii (ii + k) nzi),
               snd (butterfly n f l wr wi ii (ii + k) nzi))"
    using step Suc.prems s by simp
  have eq: "point_loop n f l wr wi k istep nm i ii (out, nzi) =
            point_loop n f l wr wi k istep nm (i + 1) (ii + istep)
              (out @ fst (butterfly n f l wr wi ii (ii + k) nzi),
               snd (butterfly n f l wr wi ii (ii + k) nzi))"
    using le by (subst point_loop.simps) (simp add: case_prod_beta)
  show ?case
    unfolding s eq by (rule Suc.hyps(1)[OF d P1])
qed

lemma group_loop_invariant:
  assumes step: "\<And>wr wi ii out nzi. P (out, nzi) \<Longrightarrow>
            P (out @ fst (butterfly n f l wr wi ii (ii + k) nzi),
               snd (butterfly n f l wr wi ii (ii + k) nzi))"
  shows "P s \<Longrightarrow> P (group_loop n f l k istep mm s)"
proof (induction "k - mm" arbitrary: mm s)
  case 0
  then show ?case by (simp add: group_loop.simps)
next
  case (Suc d)
  then have lt: "mm < k" by simp
  have d: "d = k - (mm + 1)" using Suc.hyps(2) by simp
  let ?a = "pi * (- real mm) / real k"
  let ?wi = "if inv f then - sin ?a else sin ?a"
  have P1: "P (point_loop n f l (cos ?a) ?wi k istep ((n - 1 - mm) div istep + mm) mm mm s)"
    by (rule point_loop_invariant[OF step Suc.prems])
  have eq: "group_loop n f l k istep mm s =
            group_loop n f l k istep (mm + 1)
              (point_loop n f l (cos ?a) ?wi k istep ((n - 1 - mm) div istep + mm) mm mm s)"
    using lt by (subst group_loop.simps) (simp only: Let_def if_True)
  show ?case
    unfolding eq by (rule Suc.hyps(1)[OF d P1])
qed

lemma stage_loop_invariant:
  assumes step: "\<And>l wr wi ii k out nzi. P (out, nzi) \<Longrightarrow>
            P (out @ fst (butterfly n f l wr wi ii (ii + k) nzi),
               snd (butterfly n f l wr wi ii (ii + k) nzi))"
  shows "P s \<Longrightarrow> P (stage_loop n f l k s)"
proof (induction "n - k" arbitrary: k l s rule: less_induct)
  case less
  show ?case
  proof (cases "0 < k \<and> k < n")
    case False
    then show ?thesis using less.prems by (subst stage_loop.simps) auto
  next
    case True
    let ?l = "if 2 * k = n then True else l"
    have P1: "P (group_loop n f ?l k (2 * k) 0 s)"
      by (rule group_loop_invariant[OF step less.prems])
    have dec: "n - 2 * k < n - k" using True by linarith
    have eq: "stage_loop n f l k s = stage_loop n f ?l (2 * k) (group_loop n f ?l k (2 * k) 0 s)"
      using True by (subst stage_loop.simps) (simp only: Let_def if_True simp_thms)
    show ?thesis
      unfolding eq by (rule less.hyps[OF dec P1])
  qed
qed

lemma transform_invariant:
  assumes init: "P ([], nzi_init n (realIn f))"
    and step: "\<And>l wr wi ii k out nzi. P (out, nzi) \<Longrightarrow>
            P (out @ fst (butterfly n f l wr wi ii (ii + k) nzi),
               snd (butterfly n f l wr wi ii (ii + k) nzi))"
  shows "P (transform n f)"
  unfolding transform_def by (rule stage_loop_invariant[OF step init])



section \<open>The vector \<open>nzi\<close>\<close>

lemma butterfly_length [simp]: "length (snd (butterfly n f l wr wi ii jj nzi)) = length nzi"
  unfolding butterfly_def Let_def by (simp add: case_prod_beta)

lemma nth_set_True: "i < length xs \<Longrightarrow> xs[j := True] ! i = (xs ! i \<or> i = j)"
  by (cases "i = j") simp_all

lemma butterfly_nzi:
  assumes "i < length nzi"
  shows "snd (butterfly n f l wr wi ii jj nzi) ! i =
         (nzi ! i \<or> (\<exists>s \<in> set (fst (butterfly n f l wr wi ii jj nzi)). assigns_xi s i))"
proof -
  obtain trp trz where tr: "tr_line (eps n) (epsOne n) (epsMOne n) wr wi (nzi ! jj) jj = (trp, trz)"
    by (cases "tr_line (eps n) (epsOne n) (epsMOne n) wr wi (nzi ! jj) jj")
  obtain tip tiz where ti: "ti_line (eps n) (epsOne n) (epsMOne n) wr wi (nzi ! jj) jj = (tip, tiz)"
    by (cases "ti_line (eps n) (epsOne n) (epsMOne n) wr wi (nzi ! jj) jj")
  show ?thesis
  proof (cases "realOut f \<and> l")
    case True
    then show ?thesis unfolding butterfly_def Let_def tr
      by (auto simp: split: if_splits)
  next
    case ro: False
    show ?thesis
    proof (cases tiz)
      case True
      then show ?thesis using ro assms unfolding butterfly_def Let_def tr ti
        by (cases "nzi ! ii"; cases "symmOut f \<and> l \<and> jj \<noteq> n div 2"; cases "realIn f \<and> l"; cases trz)
           (auto simp: nth_set_True)
    next
      case False
      then show ?thesis using ro assms unfolding butterfly_def Let_def tr ti
        by (cases "nzi ! ii"; cases "symmOut f \<and> l \<and> jj \<noteq> n div 2"; cases trz)
           (auto simp: nth_set_True)
    qed
  qed
qed


lemma transform_nzi:
  "length (snd (transform n f)) = n \<and>
   (\<forall>i<n. snd (transform n f) ! i =
       (\<not> realIn f \<or> (\<exists>s \<in> set (fst (transform n f)). assigns_xi s i)))"
proof -
  let ?P = "\<lambda>(out, nzi). length nzi = n \<and>
              (\<forall>i<n. nzi ! i = (\<not> realIn f \<or> (\<exists>s \<in> set out. assigns_xi s i)))"
  have "?P (transform n f)"
  proof (rule transform_invariant)
    show "?P ([], nzi_init n (realIn f))" by (simp add: nzi_init_def)
  next
    fix l wr wi ii k out nzi
    assume "?P (out, nzi)"
    then have len: "length nzi = n"
      and old: "\<forall>i<n. nzi ! i = (\<not> realIn f \<or> (\<exists>s \<in> set out. assigns_xi s i))" by auto
    have "snd (butterfly n f l wr wi ii (ii + k) nzi) ! i =
          (\<not> realIn f \<or> (\<exists>s \<in> set (out @ fst (butterfly n f l wr wi ii (ii + k) nzi)). assigns_xi s i))"
      if "i < n" for i
      using that len old butterfly_nzi[of i nzi n f l wr wi ii "ii + k"] by auto
    then show "?P (out @ fst (butterfly n f l wr wi ii (ii + k) nzi),
                   snd (butterfly n f l wr wi ii (ii + k) nzi))"
      using len by simp
  qed
  then show ?thesis by (simp add: case_prod_beta)
qed


lemma transform_four_real:
  "transform 4 \<lparr>inv = False, realIn = True, realOut = False, symm_in = False, symmOut = False\<rparr> =
     ([SetT XR [Plain XR 1], SubT XR 1 0, AddT XR 0, SetT XR [Plain XR 3], SubT XR 3 2,
       AddT XR 2, SetT XR [Plain XR 2], SubT XR 2 0, Zero 2, AddT XR 0, Zero 0,
       SetT XI [Sub XR 3], Copy XR 3 1, NegT 3, Load XI 1],
      [False, True, False, True])"
proof -
  let ?F = "\<lparr>inv = False, realIn = True, realOut = False, symm_in = False, symmOut = False\<rparr>"
  have g1: "group_loop 4 ?F False 1 2 0 ([], [False, False, False, False]) =
     ([SetT XR [Plain XR 1], SubT XR 1 0, AddT XR 0, SetT XR [Plain XR 3], SubT XR 3 2,
       AddT XR 2],
      [False, False, False, False])"
    by (simp add: eps_def epsOne_def epsMOne_def butterfly_def tr_line_def ti_line_def
        classify_def Let_def group_loop.simps point_loop.simps)
  have g2: "group_loop 4 ?F True 2 4 0
     ([SetT XR [Plain XR 1], SubT XR 1 0, AddT XR 0, SetT XR [Plain XR 3], SubT XR 3 2,
       AddT XR 2],
      [False, False, False, False]) =
     ([SetT XR [Plain XR 1], SubT XR 1 0, AddT XR 0, SetT XR [Plain XR 3], SubT XR 3 2,
       AddT XR 2, SetT XR [Plain XR 2], SubT XR 2 0, Zero 2, AddT XR 0, Zero 0,
       SetT XI [Sub XR 3], Copy XR 3 1, NegT 3, Load XI 1],
      [False, True, False, True])"
    apply (subst group_loop.simps, simp add: Let_def)
    apply (subst group_loop.simps, simp add: Let_def)
    apply (subst group_loop.simps, simp add: Let_def)
    apply (simp add: eps_def epsOne_def epsMOne_def butterfly_def tr_line_def ti_line_def
        classify_def Let_def point_loop.simps)
    done
  show ?thesis
    unfolding transform_def
    apply (simp add: nzi_init_def eval_nat_numeral)
    apply (subst stage_loop.simps, simp add: Let_def)
    apply (subst stage_loop.simps, simp add: Let_def)
    apply (subst stage_loop.simps, simp add: Let_def)
    using g1 g2 apply (simp add: eval_nat_numeral)
    done
qed

text \<open>
  Claim C8. \<open>nzi\<close> starts as all 0 with the real input option and as all 1 without
  it. A pass through the loop body never clears an entry, and an entry that is 0
  before the pass is 1 after it exactly when the pass prints an assignment to
  \<open>xi[i]\<close> of a value other than the constant \<open>0.0\<close>. After the whole transform,
  \<open>nzi[i]\<close> is 1 exactly when it started as 1 or such an assignment was printed.
\<close>

theorem nzi_monotone:
  "nzi_init n ri = replicate n (\<not> ri) \<and>
   (i < length nzi \<longrightarrow>
      (nzi ! i \<longrightarrow> snd (butterfly n f l wr wi ii jj nzi) ! i) \<and>
      (\<not> nzi ! i \<longrightarrow>
         (snd (butterfly n f l wr wi ii jj nzi) ! i \<longleftrightarrow>
          (\<exists>s \<in> set (fst (butterfly n f l wr wi ii jj nzi)). assigns_xi s i)))) \<and>
   (i < n \<longrightarrow>
      (snd (transform n f) ! i \<longleftrightarrow>
       \<not> realIn f \<or> (\<exists>s \<in> set (fst (transform n f)). assigns_xi s i)))"
  using butterfly_nzi[of i nzi n f l wr wi ii jj] transform_nzi[of n f]
  by (simp add: nzi_init_def)


theorem nzi_monotone_witness:
  "snd (transform 4 \<lparr>inv = False, realIn = True, realOut = False, symm_in = False, symmOut = False\<rparr>) ! 1 \<and>
   (\<exists>s \<in> set (fst (transform 4 \<lparr>inv = False, realIn = True, realOut = False, symm_in = False, symmOut = False\<rparr>)). assigns_xi s 1) \<and>
   \<not> snd (transform 4 \<lparr>inv = False, realIn = True, realOut = False, symm_in = False, symmOut = False\<rparr>) ! 0 \<and>
   \<not> [False, False, False, False] ! 3 \<and>
   snd (butterfly 4 \<lparr>inv = False, realIn = True, realOut = False, symm_in = False, symmOut = False\<rparr> True 0 (- 1) 1 3 [False, False, False, False]) ! 3 \<and>
   (\<exists>s \<in> set (fst (butterfly 4 \<lparr>inv = False, realIn = True, realOut = False, symm_in = False, symmOut = False\<rparr> True 0 (- 1) 1 3 [False, False, False, False])).
      assigns_xi s 3)"
proof -
  have lt: "(1::nat) < 4" by simp
  have on: "snd (transform 4 \<lparr>inv = False, realIn = True, realOut = False, symm_in = False, symmOut = False\<rparr>) ! 1" "\<not> snd (transform 4 \<lparr>inv = False, realIn = True, realOut = False, symm_in = False, symmOut = False\<rparr>) ! 0"
    by (simp_all add: transform_four_real)
  have "snd (transform 4 \<lparr>inv = False, realIn = True, realOut = False, symm_in = False, symmOut = False\<rparr>) ! 1 \<longleftrightarrow>
        \<not> realIn \<lparr>inv = False, realIn = True, realOut = False, symm_in = False, symmOut = False\<rparr> \<or> (\<exists>s \<in> set (fst (transform 4 \<lparr>inv = False, realIn = True, realOut = False, symm_in = False, symmOut = False\<rparr>)). assigns_xi s 1)"
    using nzi_monotone[where n = 4 and i = 1 and f = "\<lparr>inv = False, realIn = True, realOut = False, symm_in = False, symmOut = False\<rparr>"] lt by blast
  then have whole: "\<exists>s \<in> set (fst (transform 4 \<lparr>inv = False, realIn = True, realOut = False, symm_in = False, symmOut = False\<rparr>)). assigns_xi s 1"
    using on by simp
  have len: "(3::nat) < length [False, False, False, False]" by simp
  have off: "\<not> [False, False, False, False] ! 3" by simp
  have b: "snd (butterfly 4 \<lparr>inv = False, realIn = True, realOut = False, symm_in = False, symmOut = False\<rparr> True 0 (- 1) 1 3 [False, False, False, False]) ! 3"
    by (simp add: eps_def epsOne_def epsMOne_def butterfly_def tr_line_def ti_line_def
        classify_def Let_def)
  have "snd (butterfly 4 \<lparr>inv = False, realIn = True, realOut = False, symm_in = False, symmOut = False\<rparr> True 0 (- 1) 1 3 [False, False, False, False]) ! 3 \<longleftrightarrow>
        (\<exists>s \<in> set (fst (butterfly 4 \<lparr>inv = False, realIn = True, realOut = False, symm_in = False, symmOut = False\<rparr> True 0 (- 1) 1 3 [False, False, False, False])).
           assigns_xi s 3)"
    using nzi_monotone[where i = 3 and nzi = "[False, False, False, False]" and n = 4
        and f = "\<lparr>inv = False, realIn = True, realOut = False, symm_in = False, symmOut = False\<rparr>" and l = True and wr = 0 and wi = "- 1" and ii = 1 and jj = 3]
      len off by blast
  then show ?thesis using on whole off b by blast
qed


section \<open>The binary inversion\<close>

text \<open>
  \<open>bit_reversal\<close> is the reversal of the lowest \<open>p\<close> bits: bit \<open>i\<close> of the result
  is bit \<open>p - 1 - i\<close> of the argument. It is its own inverse below \<open>2 ^ p\<close>.
\<close>

lemma bit_reversal_less: "bit_reversal p x < 2 ^ p"
proof (induction p arbitrary: x)
  case 0
  then show ?case by simp
next
  case (Suc p)
  have "x mod 2 = 0 \<or> x mod 2 = 1" by auto
  moreover have "bit_reversal p (x div 2) < 2 ^ p" by (rule Suc.IH)
  ultimately show ?case by auto
qed

lemma div_pow_add: "(2 ^ i * c + r) div 2 ^ i = c + r div (2::nat) ^ i"
  by simp

lemma bit_pow_add:
  assumes "r < 2 ^ p"
  shows "bit (2 ^ p + r :: nat) i \<longleftrightarrow> i = p \<or> bit r i"
proof -
  consider "i < p" | "i = p" | "p < i" by linarith
  then show ?thesis
  proof cases
    case 1
    have e: "(2::nat) ^ p = 2 ^ i * 2 ^ Suc (p - Suc i)"
      using 1 by (simp add: power_add[symmetric] del: power_Suc)
    have "(2 ^ p + r) div 2 ^ i = (2::nat) ^ Suc (p - Suc i) + r div 2 ^ i"
      unfolding e by (rule div_pow_add)
    then have "odd ((2 ^ p + r) div 2 ^ i) = odd (r div 2 ^ i)" by simp
    then show ?thesis using 1 unfolding bit_iff_odd by simp
  next
    case 2
    have "(2 ^ p + r) div 2 ^ p = 1 + r div 2 ^ p" using div_pow_add[of p 1 r] by simp
    then show ?thesis unfolding bit_iff_odd 2 using assms by simp
  next
    case 3
    have "(2::nat) ^ Suc p \<le> 2 ^ i" by (rule power_increasing) (use 3 in simp_all)
    then have "2 ^ p + r < 2 ^ i" "r < 2 ^ i" using assms by simp_all
    then show ?thesis using 3 unfolding bit_iff_odd by simp
  qed
qed

lemma bit_bit_reversal: "bit (bit_reversal p x) i \<longleftrightarrow> i < p \<and> bit x (p - Suc i)"
proof (induction p arbitrary: x i)
  case 0
  then show ?case by simp
next
  case (Suc p)
  let ?r = "bit_reversal p (x div 2)"
  have r: "?r < 2 ^ p" by (rule bit_reversal_less)
  have IH: "bit ?r i \<longleftrightarrow> i < p \<and> bit x (p - i)"
  proof (cases "i < p")
    case True
    then have "Suc (p - Suc i) = p - i" by simp
    then have "bit (x div 2) (p - Suc i) = bit x (p - i)" by (metis bit_Suc)
    then show ?thesis using Suc.IH[of "x div 2" i] by simp
  next
    case False
    then show ?thesis using Suc.IH[of "x div 2" i] by simp
  qed
  have top: "bit x (Suc p - Suc p) = odd x" by (simp add: bit_0)
  show ?case
  proof (cases "even x")
    case True
    then have e: "bit_reversal (Suc p) x = ?r" by simp
    show ?thesis
    proof (cases "i = p")
      case ip: True
      show ?thesis unfolding e ip using IH ip True top by simp
    next
      case False
      then show ?thesis unfolding e using IH by (simp add: less_Suc_eq)
    qed
  next
    case False
    then have e: "bit_reversal (Suc p) x = 2 ^ p + ?r" by (simp add: odd_iff_mod_2_eq_one)
    show ?thesis
    proof (cases "i = p")
      case ip: True
      show ?thesis unfolding e ip using bit_pow_add[OF r, of p] False top by simp
    next
      case np: False
      then show ?thesis unfolding e using IH bit_pow_add[OF r, of i] by (simp add: less_Suc_eq)
    qed
  qed
qed

lemma halve_k_shift:
  assumes "j \<le> p" "r < 2 ^ p"
  shows "halve_k (2 ^ Suc p) (2 ^ p + r) (2 ^ j) = halve_k (2 ^ p) r (2 ^ j)"
  using assms
proof (induction j)
  case 0
  show ?case
    by (subst halve_k.simps, subst (2) halve_k.simps) (simp add: Let_def)
next
  case (Suc j)
  have d: "(2::nat) ^ Suc j div 2 = 2 ^ j" by simp
  have c: "(2 ^ Suc p \<le> 2 ^ p + r + 2 ^ j) = ((2::nat) ^ p \<le> r + 2 ^ j)" by simp
  show ?case
    apply (subst halve_k.simps, subst (2) halve_k.simps)
    unfolding Let_def d c using Suc by simp
qed

lemma halve_k_pow:
  assumes "halve_k n r (2 ^ j) = Inr k"
  shows "k = 0 \<or> (\<exists>i<j. k = 2 ^ i)"
  using assms
proof (induction j)
  case 0
  then show ?case by (subst (asm) halve_k.simps) (simp add: Let_def split: if_splits)
next
  case (Suc j)
  have d: "(2::nat) ^ Suc j div 2 = 2 ^ j" by simp
  from Suc.prems show ?case
    apply (subst (asm) halve_k.simps)
    unfolding Let_def d
    using Suc.IH by (auto split: if_splits simp: less_Suc_eq)
qed

lemma next_mr_bit_reversal:
  "Suc x < 2 ^ p \<Longrightarrow> next_mr (2 ^ p) (bit_reversal p x) = Inr (bit_reversal p (Suc x))"
proof (induction p arbitrary: x)
  case 0
  then show ?case by simp
next
  case (Suc p)
  let ?r = "bit_reversal p (x div 2)"
  have r: "?r < 2 ^ p" by (rule bit_reversal_less)
  have d: "(2::nat) ^ Suc p div 2 = 2 ^ p" by simp
  show ?case
  proof (cases "even x")
    case True
    then have x0: "x mod 2 = 0" and x1: "Suc x mod 2 = 1" and xd: "Suc x div 2 = x div 2"
      by (auto simp: mod_Suc)
    have "halve_k (2 ^ Suc p) ?r (2 ^ Suc p) = Inr (2 ^ p)"
      using r by (subst halve_k.simps) (simp add: Let_def)
    then show ?thesis using r by (simp add: next_mr_def x0 x1 xd)
  next
    case False
    then have x0: "x mod 2 = 1" and x1: "Suc x mod 2 = 0" and xd: "Suc x div 2 = Suc (x div 2)"
      by (auto simp: mod_Suc elim: oddE)
    have lt: "Suc (x div 2) < 2 ^ p" using Suc.prems xd by (metis x1 dvd_imp_mod_0 even_Suc False less_mult_imp_div_less mult.commute power_Suc)
    have IH: "next_mr (2 ^ p) ?r = Inr (bit_reversal p (Suc (x div 2)))"
      by (rule Suc.IH[OF lt])
    then obtain k where k: "halve_k (2 ^ p) ?r (2 ^ p) = Inr k" and k0: "k \<noteq> 0"
      and v: "?r mod k + k = bit_reversal p (Suc (x div 2))"
      by (auto simp: next_mr_def split: sum.splits if_splits)
    obtain i where i: "i < p" "k = 2 ^ i" using halve_k_pow[OF k] k0 by auto
    have h1: "halve_k (2 ^ Suc p) (2 ^ p + ?r) (2 ^ Suc p) = halve_k (2 ^ Suc p) (2 ^ p + ?r) (2 ^ p)"
      by (subst halve_k.simps) (simp add: Let_def)
    have h2: "halve_k (2 ^ Suc p) (2 ^ p + ?r) (2 ^ p) = Inr k"
      using halve_k_shift[OF le_refl r] k by simp
    have "(2 ^ p + ?r) mod k = ?r mod k"
      using i by (metis le_imp_power_dvd less_imp_le_nat mod_add_self1 dvd_eq_mod_eq_0 mod_add_left_eq add_0 )
    then show ?thesis
      using h1 h2 k0 v by (simp add: next_mr_def x0 x1 xd)
  qed
qed


lemma bit_reversal_alt:
  "x < 2 ^ Suc p \<Longrightarrow> bit_reversal (Suc p) x = 2 * bit_reversal p (x mod 2 ^ p) + x div 2 ^ p"
proof (induction p arbitrary: x)
  case 0
  then show ?case by simp
next
  case (Suc p)
  have lt: "x div 2 < 2 ^ Suc p" using Suc.prems by simp
  have a: "x mod 2 ^ Suc p mod 2 = x mod 2"
    by (simp add: mod_mod_cancel)
  have b: "x mod 2 ^ Suc p div 2 = x div 2 mod 2 ^ p"
    by (simp add: mod_mult2_eq)
  have c: "x div 2 div 2 ^ p = x div 2 ^ Suc p"
    by (simp add: div_mult2_eq)
  have "bit_reversal (Suc (Suc p)) x = 2 ^ Suc p * (x mod 2) + bit_reversal (Suc p) (x div 2)"
    by simp
  also have "\<dots> = 2 ^ Suc p * (x mod 2) + (2 * bit_reversal p (x div 2 mod 2 ^ p) + x div 2 div 2 ^ p)"
    using Suc.IH[OF lt] by simp
  also have "\<dots> = 2 * bit_reversal (Suc p) (x mod 2 ^ Suc p) + x div 2 ^ Suc (Suc p - 1)"
    unfolding bit_reversal.simps a b c by simp
  finally show ?case by simp
qed

lemma bit_reversal_invol: "x < 2 ^ p \<Longrightarrow> bit_reversal p (bit_reversal p x) = x"
proof (induction p arbitrary: x)
  case 0
  then show ?case by simp
next
  case (Suc p)
  let ?r = "bit_reversal p (x div 2)"
  have r: "?r < 2 ^ p" by (rule bit_reversal_less)
  have b: "x mod 2 < 2" by simp
  have y: "bit_reversal (Suc p) x = 2 ^ p * (x mod 2) + ?r" by simp
  have ylt: "bit_reversal (Suc p) x < 2 ^ Suc p" by (rule bit_reversal_less)
  have m: "(2 ^ p * (x mod 2) + ?r) mod 2 ^ p = ?r" using r by simp
  have d: "(2 ^ p * (x mod 2) + ?r) div 2 ^ p = x mod 2" using r by simp
  have xd: "x div 2 < 2 ^ p" using Suc.prems by simp
  have "bit_reversal (Suc p) (bit_reversal (Suc p) x) =
        2 * bit_reversal p ?r + x mod 2"
    using bit_reversal_alt[OF ylt] unfolding y m d by simp
  also have "\<dots> = 2 * (x div 2) + x mod 2" using Suc.IH[OF xd] by simp
  finally show ?case by simp
qed

lemma bit_reversal_zero [simp]: "bit_reversal p 0 = 0"
  by (induction p) auto

lemma plan_loop_total:
  assumes "n = 2 ^ p"
  shows "1 \<le> mm \<Longrightarrow> cur_mr st = bit_reversal p (mm - 1) \<Longrightarrow> \<exists>st'. plan_loop n s mm st = Inr st'"
proof (induction "n - mm" arbitrary: mm st)
  case 0
  then show ?case by (subst plan_loop.simps) simp
next
  case (Suc d)
  then have lt: "mm < n" by simp
  have "Suc (mm - 1) < 2 ^ p" using lt Suc.prems(1) assms by simp
  from next_mr_bit_reversal[OF this]
  have nx: "next_mr n (cur_mr st) = Inr (bit_reversal p mm)"
    using Suc.prems assms by simp
  let ?st1 = "(if bit_reversal p mm > mm then
                \<lparr>cur_mr = bit_reversal p mm, nSwap = nSwap st + 1,
                 swap = add_swap n s mm (bit_reversal p mm) (nSwap st) (swap st)\<rparr>
              else st\<lparr>cur_mr := bit_reversal p mm\<rparr>)"
  have d: "d = n - (mm + 1)" using Suc.hyps(2) by simp
  have c: "cur_mr ?st1 = bit_reversal p (mm + 1 - 1)" by simp
  have "\<exists>st'. plan_loop n s (mm + 1) ?st1 = Inr st'"
    by (rule Suc.hyps(1)[OF d _ c]) simp
  then show ?case using lt nx by (subst plan_loop.simps) simp
qed

lemma planner_total: "\<exists>st. planner (2 ^ p) s = Inr st"
  unfolding planner_def by (rule plan_loop_total[OF refl]) simp_all


section \<open>The planner without the input symmetry\<close>

lemma std_records_Suc:
  "1 \<le> mm \<Longrightarrow> std_records p (Suc mm) =
     std_records p mm @ (if mm < bit_reversal p mm then [plain_swap p mm] else [])"
  by (simp add: std_records_def)

lemma length_std_records: "length (std_records p mm) \<le> mm - 1"
  unfolding std_records_def
  by (metis length_map length_filter_le length_upt)

lemma planner_std:
  assumes "planner (2 ^ p) False = Inr st"
  shows "records st = std_records p (2 ^ p)"
proof -
  let ?n = "(2::nat) ^ p"
  let ?init = "\<lparr>m = 0, mr = 0, m_new = 0, mr_new = 0, symmIn = False\<rparr>"
  let ?I = "\<lambda>mm st. 1 \<le> mm \<and> mm \<le> ?n \<and> cur_mr st = bit_reversal p (mm - 1) \<and>
              nSwap st = length (std_records p mm) \<and>
              swap st = std_records p mm @ replicate (?n - length (std_records p mm)) ?init"
  let ?st0 = "\<lparr>cur_mr = 0, nSwap = 0, swap = swap_init ?n\<rparr>"
  have init: "?I 1 ?st0"
    by (simp add: swap_init_def std_records_def)
  have run: "plan_loop ?n False 1 ?st0 = Inr st"
    using assms by (simp add: planner_def)
  have step: "?I (mm + 1) (if mmr > mm then
                \<lparr>cur_mr = mmr, nSwap = nSwap st + 1,
                 swap = add_swap ?n False mm mmr (nSwap st) (swap st)\<rparr>
              else st\<lparr>cur_mr := mmr\<rparr>)"
    if I: "?I mm st" and lt: "mm < ?n" and nx: "next_mr ?n (cur_mr st) = Inr mmr"
    for mm :: nat and st :: pstate and mmr :: nat
  proof -
    have m1: "1 \<le> mm" using I by simp
    have "Suc (mm - 1) < 2 ^ p" using lt m1 by simp
    from next_mr_bit_reversal[OF this] have mmr: "mmr = bit_reversal p mm"
      using I nx m1 by simp
    let ?L = "std_records p mm"
    have len: "length ?L < ?n" using length_std_records[of p mm] lt m1 by linarith
    show ?thesis
    proof (cases "mmr > mm")
      case False
      then show ?thesis using I lt mmr std_records_Suc[OF m1, of p] by simp
    next
      case True
      have ns: "nSwap st < length (swap st)" using I len by simp
      have at: "swap st ! nSwap st = ?init" using I len by (simp add: nth_append)
      have upd: "(swap st)[nSwap st := plain_swap p mm] =
                 (?L @ [plain_swap p mm]) @ replicate (?n - length (?L @ [plain_swap p mm])) ?init"
      proof -
        obtain k where k: "?n - length ?L = Suc k" using len by (metis Suc_diff_Suc)
        then have "?n - length (?L @ [plain_swap p mm]) = k" by simp
        then show ?thesis using I k by (simp add: list_update_append)
      qed
      have "add_swap ?n False mm mmr (nSwap st) (swap st) = (swap st)[nSwap st := plain_swap p mm]"
        using add_swap_nosymm[of False mm ?n mmr "nSwap st" "swap st"] ns at mmr
        by (simp add: plain_swap_def)
      then have sw: "add_swap ?n False mm mmr (nSwap st) (swap st) =
          std_records p (mm + 1) @ replicate (?n - length (std_records p (mm + 1))) ?init"
        using upd True mmr std_records_Suc[OF m1, of p] by simp
      have nl: "nSwap st + 1 = length (std_records p (mm + 1))"
        using I True mmr std_records_Suc[OF m1, of p] by simp
      show ?thesis using True lt mmr sw nl by simp
    qed
  qed
  have "?I (max 1 ?n) st"
  proof (rule plan_loop_invariant[where I = ?I, OF _ _ init run], goal_cases)
    case (1 mm st mmr)
    from step[OF 1(1) 1(2) 1(4)] 1(3) show ?case by (simp only: if_True)
  next
    case (2 mm st mmr)
    from step[OF 2(1) 2(2) 2(4)] 2(3) show ?case by (simp only: if_False)
  qed
  then show ?thesis by (simp add: records_def)
qed


lemma run_append: "run (a @ b) s = run b (run a s)"
  by (simp add: run_def)

lemma run_Nil [simp]: "run [] s = s"
  by (simp add: run_def)

lemma run_swap_plain:
  assumes "\<not> symmIn r"
  shows "xr (run (swap_stmts n ri r) s) = swap_at (m r) (mr r) (xr s)"
    and "xi (run (swap_stmts n ri r) s) = (if ri then xi s else swap_at (m r) (mr r) (xi s))"
  using assms by (simp_all add: swap_stmts_def run_def swap_at_def)

lemma swaps_upto_Suc:
  "1 \<le> mm \<Longrightarrow> swaps_upto p (Suc mm) xs =
     (if mm < bit_reversal p mm then swap_at mm (bit_reversal p mm) (swaps_upto p mm xs)
      else swaps_upto p mm xs)"
  by (simp add: swaps_upto_def)

lemma run_std_records:
  "xr (run (concat (map (swap_stmts n ri) (std_records p mm))) s) = swaps_upto p mm (xr s) \<and>
   xi (run (concat (map (swap_stmts n ri) (std_records p mm))) s) =
     (if ri then xi s else swaps_upto p mm (xi s))"
proof (induction mm)
  case 0
  then show ?case by (simp add: std_records_def swaps_upto_def)
next
  case (Suc mm)
  show ?case
  proof (cases "1 \<le> mm")
    case False
    then show ?thesis by (simp add: std_records_def swaps_upto_def)
  next
    case True
    have ns: "\<not> symmIn (plain_swap p mm)" by (simp add: plain_swap_def)
    let ?s' = "run (concat (map (swap_stmts n ri) (std_records p mm))) s"
    show ?thesis
    proof (cases "mm < bit_reversal p mm")
      case False
      then show ?thesis
        using Suc.IH by (cases ri) (simp_all add: std_records_Suc[OF True] swaps_upto_Suc[OF True])
    next
      case sw: True
      have e: "run (concat (map (swap_stmts n ri) (std_records p (Suc mm)))) s =
               run (swap_stmts n ri (plain_swap p mm)) ?s'"
        using sw by (simp add: std_records_Suc[OF True] run_append)
      have x: "xr (run (swap_stmts n ri (plain_swap p mm)) ?s') =
               swap_at mm (bit_reversal p mm) (xr ?s')"
        using run_swap_plain(1)[OF ns] by (simp add: plain_swap_def)
      have y: "xi (run (swap_stmts n ri (plain_swap p mm)) ?s') =
               (if ri then xi ?s' else swap_at mm (bit_reversal p mm) (xi ?s'))"
        using run_swap_plain(2)[OF ns] by (simp add: plain_swap_def)
      show ?thesis
        unfolding e x y using Suc.IH sw by (cases ri) (simp_all add: swaps_upto_Suc[OF True])
    qed
  qed
qed

lemma length_swap_at [simp]: "length (swap_at a b xs) = length xs"
  by (simp add: swap_at_def)

lemma length_swaps_upto [simp]: "length (swaps_upto p mm xs) = length xs"
proof (induction mm)
  case 0
  then show ?case by (simp add: swaps_upto_def)
next
  case (Suc mm)
  then show ?case by (cases "1 \<le> mm") (simp_all add: swaps_upto_Suc, simp add: swaps_upto_def)
qed

lemma bit_reversal_eq_zero: "x < 2 ^ p \<Longrightarrow> bit_reversal p x = 0 \<Longrightarrow> x = 0"
  by (metis bit_reversal_invol bit_reversal_zero)

lemma swaps_upto_nth:
  assumes "length xs = 2 ^ p"
  shows "mm \<le> 2 ^ p \<Longrightarrow> \<forall>i<2 ^ p. swaps_upto p mm xs ! i =
           (if i < mm \<or> bit_reversal p i < mm then xs ! bit_reversal p i else xs ! i)"
proof (induction mm)
  case 0
  then show ?case by (simp add: swaps_upto_def)
next
  case (Suc mm)
  let ?r = "bit_reversal p"
  show ?case
  proof (cases "1 \<le> mm")
    case False
    then have mm: "mm = 0" by simp
    have "swaps_upto p (Suc mm) xs = xs" by (simp add: swaps_upto_def mm)
    moreover have "i < Suc 0 \<or> ?r i < Suc 0 \<Longrightarrow> xs ! ?r i = xs ! i" if "i < 2 ^ p" for i
      using bit_reversal_eq_zero[OF that] by auto
    ultimately show ?thesis using mm by auto
  next
    case True
    let ?A = "swaps_upto p mm xs"
    have IH: "?A ! j = (if j < mm \<or> ?r j < mm then xs ! ?r j else xs ! j)" if "j < 2 ^ p" for j
      using Suc.IH Suc.prems that by simp
    have lenA: "length ?A = 2 ^ p" using assms(1) by simp
    have mlt: "mm < 2 ^ p" using Suc.prems by simp
    have rlt: "?r mm < 2 ^ p" by (rule bit_reversal_less)
    have rr: "?r (?r mm) = mm" using bit_reversal_invol[OF mlt] .
    show ?thesis
    proof (intro allI impI)
      fix i :: nat
      assume i: "i < 2 ^ p"
      have ri: "?r (?r i) = i" using bit_reversal_invol[OF i] .
      show "swaps_upto p (Suc mm) xs ! i =
            (if i < Suc mm \<or> ?r i < Suc mm then xs ! ?r i else xs ! i)"
      proof (cases "mm < ?r mm")
        case sw: True
        have Am: "?A ! mm = xs ! mm" using IH[OF mlt] sw by simp
        have Ar: "?A ! ?r mm = xs ! ?r mm" using IH[OF rlt] sw rr by simp
        consider "i = mm" | "i = ?r mm" | "i \<noteq> mm" "i \<noteq> ?r mm" by blast
        then show ?thesis
        proof cases
          case 1
          then show ?thesis
            using sw True Am Ar lenA mlt rlt
            by (simp add: swaps_upto_Suc swap_at_def)
        next
          case 2
          then show ?thesis
            using sw True Am Ar lenA mlt rlt rr
            by (simp add: swaps_upto_Suc swap_at_def)
        next
          case 3
          have "?r i \<noteq> mm" using 3(2) ri by auto
          then have "(i < Suc mm \<or> ?r i < Suc mm) = (i < mm \<or> ?r i < mm)"
            using 3 by auto
          then show ?thesis
            using sw True 3 IH[OF i]
            by (simp add: swaps_upto_Suc swap_at_def)
        qed
      next
        case nsw: False
        have "(i < Suc mm \<or> ?r i < Suc mm) = ((i < mm \<or> ?r i < mm) \<or> (i = mm \<and> ?r mm = mm))"
          using nsw ri rr by (metis less_Suc_eq linorder_neqE_nat)
        then show ?thesis
          using nsw True IH[OF i]
          by (auto simp add: swaps_upto_Suc)
      qed
    qed
  qed
qed

lemma swaps_upto_permuted:
  assumes "length xs = 2 ^ p"
  shows "swaps_upto p (2 ^ p) xs = permuted p xs"
proof (rule nth_equalityI)
  show "length (swaps_upto p (2 ^ p) xs) = length (permuted p xs)"
    using assms by (simp add: permuted_def)
next
  fix i
  assume "i < length (swaps_upto p (2 ^ p) xs)"
  then have i: "i < 2 ^ p" using assms by simp
  then show "swaps_upto p (2 ^ p) xs ! i = permuted p xs ! i"
    using swaps_upto_nth[OF assms le_refl] by (simp add: permuted_def)
qed

lemma perm_emit_plain:
  assumes "length (xr s) = 2 ^ p" and "length (xi s) = 2 ^ p"
  shows "\<exists>st. planner (2 ^ p) False = Inr st \<and>
           records st = map (plain_swap p) (filter (\<lambda>x. x < bit_reversal p x) [1..<2 ^ p]) \<and>
           xr (run (perm_emit (2 ^ p) ri False st) s) = permuted p (xr s) \<and>
           xi (run (perm_emit (2 ^ p) ri False st) s) =
             (if ri then xi s else permuted p (xi s))"
proof -
  obtain st where st: "planner (2 ^ p) False = Inr st"
    using planner_total by blast
  have recs: "records st = std_records p (2 ^ p)" by (rule planner_std[OF st])
  have e: "run (perm_emit (2 ^ p) ri False st) s =
           run (concat (map (swap_stmts (2 ^ p) ri) (std_records p (2 ^ p)))) s"
    by (simp add: perm_emit_def recs run_append run_def)
  have x: "xr (run (perm_emit (2 ^ p) ri False st) s) = permuted p (xr s)"
    unfolding e using run_std_records[of "2 ^ p" ri p "2 ^ p" s] swaps_upto_permuted[OF assms(1)]
    by simp
  have y: "xi (run (perm_emit (2 ^ p) ri False st) s) = (if ri then xi s else permuted p (xi s))"
    unfolding e using run_std_records[of "2 ^ p" ri p "2 ^ p" s] swaps_upto_permuted[OF assms(2)]
    by simp
  have r: "records st = map (plain_swap p) (filter (\<lambda>x. x < bit_reversal p x) [1..<2 ^ p])"
    using recs by (simp add: std_records_def)
  from st r x y show ?thesis by blast
qed


lemma br2:
  "bit_reversal 2 0 = 0" "bit_reversal 2 (Suc 0) = 2" "bit_reversal 2 2 = Suc 0"
  "bit_reversal 2 3 = 3"
  by code_simp+

lemma permuted_four: "permuted 2 [a, b, c, d] = [a, c, b, d]"
proof -
  have "[0..<2 ^ 2] = [0, Suc 0, 2, 3 :: nat]" by code_simp
  then show ?thesis by (simp add: permuted_def br2)
qed

lemma records_four:
  "map (plain_swap 2) (filter (\<lambda>x. x < bit_reversal 2 x) [1..<2 ^ 2]) =
   [\<lparr>m = 1, mr = 2, m_new = 0, mr_new = 0, symmIn = False\<rparr>]"
  by code_simp


text \<open>
  Claim C3, as the code has it. For \<open>n = 2 ^ p\<close> without the input symmetry the
  planner ends without a fault and its records are exactly the pairs
  \<open>(x, bit_reversal p x)\<close> with \<open>x < bit_reversal p x\<close>, for \<open>x\<close> from 1 to \<open>n - 1\<close>
  in increasing order. Executing the lines printed for them turns \<open>xr\<close> into its
  bit reversal permutation; it does the same to \<open>xi\<close> when the real input option
  is unset, and leaves \<open>xi\<close> as it is when the option is set (no line for \<open>xi\<close> is
  printed then).
\<close>

theorem bit_reversal_planner:
  assumes "length (xr s) = 2 ^ p" and "length (xi s) = 2 ^ p"
  shows "\<exists>st. planner (2 ^ p) False = Inr st \<and>
           records st = map (plain_swap p) (filter (\<lambda>x. x < bit_reversal p x) [1..<2 ^ p]) \<and>
           xr (run (perm_emit (2 ^ p) ri False st) s) = permuted p (xr s) \<and>
           xi (run (perm_emit (2 ^ p) ri False st) s) =
             (if ri then xi s else permuted p (xi s))"
  using assms by (rule perm_emit_plain)


theorem bit_reversal_planner_witness:
  "(case planner 4 False of
      Inl e \<Rightarrow> False
    | Inr st \<Rightarrow>
        records st = [\<lparr>m = 1, mr = 2, m_new = 0, mr_new = 0, symmIn = False\<rparr>] \<and>
        xr (run (perm_emit 4 False False st)
              \<lparr>xr = [10, 11, 12, 13], xi = [20, 21, 22, 23], tr = 0, ti = 0\<rparr>) =
          [10, 12, 11, 13] \<and>
        xi (run (perm_emit 4 False False st)
              \<lparr>xr = [10, 11, 12, 13], xi = [20, 21, 22, 23], tr = 0, ti = 0\<rparr>) =
          [20, 22, 21, 23])"
proof -
  let ?s = "\<lparr>xr = [10, 11, 12, 13], xi = [20, 21, 22, 23], tr = 0, ti = 0\<rparr>"
  have l: "length (xr ?s) = 2 ^ 2" "length (xi ?s) = 2 ^ 2" by simp_all
  have four: "(2::nat) ^ 2 = 4" by simp
  obtain st where a: "planner (2 ^ 2) False = Inr st"
    and b: "records st = map (plain_swap 2) (filter (\<lambda>x. x < bit_reversal 2 x) [1..<2 ^ 2])"
    and c: "xr (run (perm_emit (2 ^ 2) False False st) ?s) = permuted 2 (xr ?s)"
    and d: "xi (run (perm_emit (2 ^ 2) False False st) ?s) =
            (if False then xi ?s else permuted 2 (xi ?s))"
    using bit_reversal_planner[OF l, of False] by blast
  have "planner 4 False = Inr st" using a by simp
  moreover have "records st = [\<lparr>m = 1, mr = 2, m_new = 0, mr_new = 0, symmIn = False\<rparr>]"
    using b unfolding records_four .
  moreover have "xr (run (perm_emit 4 False False st) ?s) = [10, 12, 11, 13]"
    using c by (simp add: permuted_four)
  moreover have "xi (run (perm_emit 4 False False st) ?s) = [20, 22, 21, 23]"
    using d by (simp add: permuted_four)
  ultimately show ?thesis by simp
qed


text \<open>
  With the real input option and \<open>n = 4\<close> the emitted lines leave \<open>xi\<close>
  unchanged, which is not its bit reversal permutation.
\<close>

theorem bit_reversal_counterexample:
  "(case planner 4 False of
      Inl e \<Rightarrow> False
    | Inr st \<Rightarrow>
        xi (run (perm_emit 4 True False st)
              \<lparr>xr = [10, 11, 12, 13], xi = [20, 21, 22, 23], tr = 0, ti = 0\<rparr>) =
          [20, 21, 22, 23]) \<and>
   permuted 2 [20, 21, 22, 23 :: real] = [20, 22, 21, 23] \<and>
   [20, 21, 22, 23] \<noteq> [20, 22, 21, 23 :: real]"
proof -
  let ?s = "\<lparr>xr = [10, 11, 12, 13], xi = [20, 21, 22, 23], tr = 0, ti = 0\<rparr>"
  have l: "length (xr ?s) = 2 ^ 2" "length (xi ?s) = 2 ^ 2" by simp_all
  obtain st where a: "planner (2 ^ 2) False = Inr st"
    and d: "xi (run (perm_emit (2 ^ 2) True False st) ?s) =
            (if True then xi ?s else permuted 2 (xi ?s))"
    using perm_emit_plain[OF l, of True] by blast
  have "planner 4 False = Inr st" using a by simp
  moreover have "xi (run (perm_emit 4 True False st) ?s) = [20, 21, 22, 23]"
    using d by simp
  moreover have "permuted 2 [20, 21, 22, 23 :: real] = [20, 22, 21, 23]"
    by (rule permuted_four)
  moreover have "[20, 21, 22, 23] \<noteq> [20, 22, 21, 23 :: real]" by simp
  ultimately show ?thesis by simp
qed

section \<open>Exit status and diagnostics\<close>

lemma checkOption_stop:
  "checkOption ev cur rest op s = Stop r \<Longrightarrow> failed r"
  unfolding checkOption_def Let_def
  by (auto split: if_splits option.splits list.splits simp: failed_def info_def exit_code_def ln_def)

lemma checkOptions_stop:
  "checkOptions ev cur rest ops po s = (Stop r, po') \<Longrightarrow> failed r"
proof (induction ops arbitrary: po s)
  case Nil
  then show ?case by simp
next
  case (Cons op ops)
  then show ?case
    by (auto split: checked.splits if_splits dest: checkOption_stop)
qed

lemma parse_stop:
  "parse_args ev s args = Inl r \<Longrightarrow> failed r \<or> r = version_result \<or> r = help_result"
  "short_opts ev s cur rest = Inl r \<Longrightarrow> failed r \<or> r = version_result \<or> r = help_result"
proof (induction ev s args and ev s cur rest rule: parse_args_short_opts.induct)
  case (1 ev s)
  then show ?case by simp
next
  case (2 ev s a rest)
  then show ?case
    by (auto simp: failed_def info_def exit_code_def ln_def split: if_splits)
next
  case (3 ev s cur rest)
  show ?case
  proof (cases "cur = []")
    case True
    then show ?thesis using 3 by simp
  next
    case False
    obtain c po where c: "checkOptions ev cur rest pOptions 0 s = (c, po)"
      by (cases "checkOptions ev cur rest pOptions 0 s")
    show ?thesis
    proof (cases c)
      case (Stop x)
      then show ?thesis using False c checkOptions_stop[of ev cur rest pOptions 0 s x po] "3.prems"
        by simp
    next
      case (Ret ret s' adv)
      show ?thesis
      proof (cases "ret = 1")
        case True
        then show ?thesis
          using False c Ret "3.IH"(2)[OF False c[symmetric] Ret True] "3.prems" by simp
      next
        case r1: False
        show ?thesis
        proof (cases "ret = - 1")
          case True
          then show ?thesis
            using False c Ret r1 "3.IH"(3)[OF False c[symmetric] Ret r1 True] "3.prems" by simp
        next
          case False
          then show ?thesis using \<open>cur \<noteq> []\<close> c Ret r1 "3.prems"
            by (auto simp: failed_def info_def exit_code_def ln_def version_result_def
                help_result_def split: if_splits)
        qed
      qed
    qed
  qed
qed


lemma unknown_argument:
  assumes "\<not> (a \<noteq> [] \<and> hd a = CHR ''-'' \<and> tl a \<noteq> [])"
  shows "parse_args ev s (a # rest) =
           Inl (info True [] ([CHR 0x0A] @ ln (''fftGen: Unknown argument '' @ a) @ ln []))"
  using assms by auto

lemma unknown_option:
  assumes "c \<notin> set ''nirolmsv-Vh?''"
  shows "short_opts ev s (c # cs) rest =
           Inl (info True [] ([CHR 0x0A] @ ln (''fftGen: Unknown option -'' @ c # cs) @ ln []))"
proof -
  have ne: "CHR ''n'' \<noteq> c" "CHR ''i'' \<noteq> c" "CHR ''r'' \<noteq> c" "CHR ''o'' \<noteq> c"
    "CHR ''l'' \<noteq> c" "CHR ''m'' \<noteq> c" "CHR ''s'' \<noteq> c" "CHR ''v'' \<noteq> c"
    "CHR ''-'' \<noteq> c" "CHR ''V'' \<noteq> c" "CHR ''h'' \<noteq> c" "CHR ''?'' \<noteq> c"
    using assms by auto
  have "checkOptions ev (c # cs) rest pOptions 0 s = (Ret 0 s False, 8)"
    using ne by (simp add: pOptions_def checkOption_def scan_named_def)
  then show ?thesis using ne by simp
qed

lemma missing_number:
  assumes "scan_i ev [] = None" and "cur = ''n'' \<or> cur = ''-points''"
  shows "short_opts ev s cur [] =
           Inl (info True [] ([CHR 0x0A] @ ln ''fftGen: Invalid option argument (null)'' @ ln []))"
proof -
  have "checkOptions ev cur [] pOptions 0 s =
          (Stop (info True [] ([CHR 0x0A] @ ln ''fftGen: Invalid option argument (null)'' @ ln [])), 0)"
    using assms by (auto simp add: pOptions_def checkOption_def scan_named_def)
  then show ?thesis using assms(2) by auto
qed

lemma bad_number:
  assumes "scan_i ev [] = None" and "scan_i ev a = None" and "cur = ''n'' \<or> cur = ''-points''"
  shows "short_opts ev s cur (a # rest) =
           Inl (info True [] ([CHR 0x0A] @ ln (''fftGen: Invalid option argument '' @ a) @ ln []))"
proof -
  have "checkOptions ev cur (a # rest) pOptions 0 s =
          (Stop (info True [] ([CHR 0x0A] @ ln (''fftGen: Invalid option argument '' @ a) @ ln [])), 0)"
    using assms by (auto simp add: pOptions_def checkOption_def scan_named_def)
  then show ?thesis using assms(3) by auto
qed

lemma and_pred_nat:
  "0 < q \<Longrightarrow> q AND (q - 1) = 0 \<Longrightarrow> \<exists>p. q = (2::nat) ^ p"
proof (induction q rule: less_induct)
  case (less q)
  show ?case
  proof (cases "q = 1")
    case True
    then have "q = 2 ^ 0" by simp
    then show ?thesis by blast
  next
    case False
    then have q2: "2 \<le> q" using less.prems(1) by simp
    show ?thesis
    proof (cases "even q")
      case True
      then obtain k where k: "q = 2 * k" by (elim evenE)
      then have k0: "0 < k" using less.prems(1) by simp
      have pred: "q - 1 = 2 * (k - 1) + 1" using k k0 by simp
      have "q AND (q - 1) = 2 * (k AND (k - 1))"
        unfolding pred unfolding k
        by (subst and_nat_rec) simp
      then have "k AND (k - 1) = 0" using less.prems(2) by simp
      moreover have "k < q" using k k0 by simp
      ultimately obtain p where "k = 2 ^ p" using less.IH k0 by blast
      then have "q = 2 ^ Suc p" using k by simp
      then show ?thesis by blast
    next
      case False
      then obtain k where k: "q = 2 * k + 1" by (elim oddE)
      then have k0: "0 < k" using q2 by simp
      have "q AND (q - 1) = 2 * (k AND k)"
        unfolding k
        by (subst and_nat_rec) simp
      then have "k = 0" using less.prems(2) by simp
      then show ?thesis using k0 by simp
    qed
  qed
qed

lemma pow2_word:
  fixes w :: "32 word"
  shows "(w \<noteq> 0 \<and> w AND (w - 1) = 0) \<longleftrightarrow> (\<exists>k<32. w = 2 ^ k)"
proof
  assume a: "w \<noteq> 0 \<and> w AND (w - 1) = 0"
  define q where "q = unat w"
  have q0: "0 < q" using a by (simp add: q_def unat_gt_0)
  have "w \<noteq> 0" using a by simp
  then have "unat (w AND (w - 1)) = q AND (q - 1)"
    by (simp add: q_def unsigned_and_eq unat_minus_one)
  moreover have "unat (w AND (w - 1)) = 0" using a by simp
  ultimately have "q AND (q - 1) = 0" by simp
  then obtain p where p: "q = 2 ^ p" using and_pred_nat[OF q0] by blast
  have "q < 2 ^ 32" unfolding q_def using unsigned_less[of w] by simp
  then have p32: "p < 32" unfolding p using power_strict_increasing_iff[of "2::nat" p 32] by simp
  have "w = word_of_nat q" by (simp add: q_def)
  then have "w = 2 ^ p" unfolding p by simp
  then show "\<exists>k<32. w = 2 ^ k" using p32 by blast
next
  assume "\<exists>k<32. w = 2 ^ k"
  then obtain k where k: "k < 32" "w = 2 ^ k" by blast
  have "w \<noteq> 0" unfolding k(2) using k(1) by (simp add: exp_eq_zero_iff)
  moreover have "(2::32 word) ^ k AND (2 ^ k - 1) = 0"
    by (rule bit_eqI) (auto simp: bit_and_iff bit_exp_iff mask_eq_exp_minus_1[symmetric] bit_mask_iff)
  ultimately show "w \<noteq> 0 \<and> w AND (w - 1) = 0" using k(2) by simp
qed

lemma sint_pow2:
  assumes "k < 31"
  shows "sint ((2::32 word) ^ k) = 2 ^ k"
proof -
  have "(2::32 word) ^ k \<noteq> 0" using assms by (simp add: exp_eq_zero_iff)
  then have "uint ((2::32 word) ^ k) = 2 ^ k" by (intro uint_2p) (simp add: word_gt_0)
  moreover have "(2::int) ^ k < 2 ^ 31"
    using assms power_strict_increasing[of k 31 "2::int"] by simp
  moreover have "- (2 ^ 31) \<le> (2::int) ^ k"
    by (rule order_trans[of _ 0]) simp_all
  ultimately have "signed_take_bit 31 ((2::int) ^ k) = 2 ^ k"
    by (intro signed_take_bit_int_eq_self)
  then show ?thesis using \<open>uint ((2::32 word) ^ k) = 2 ^ k\<close>
    by (simp add: sint_uint)
qed

lemma sint_int_min32: "sint ((2::32 word) ^ 31) = - 2147483648"
  by simp

lemma sint_neg_pow2:
  assumes "k < 32" "sint ((2::32 word) ^ k) < 0"
  shows "k = 31"
  using assms sint_pow2[of k] by (cases "k < 31") auto


lemma fftGen_total: "\<exists>ss. fftGen (2 ^ p) f = Inr ss"
  using planner_total[of p "symm_in f"] by (auto simp: fftGen_def)

lemma main_body_no_points:
  assumes "o_n s = 0"
  shows "main_body ev s =
           Inr (info True []
                  (verbose_text s @ [CHR 0x0A] @ ln ''fftGen: No number of points specified.''))"
  using assms by (simp add: main_body_def)

lemma main_body_not_pow2:
  assumes "o_n s \<noteq> 0" and "\<not> (\<exists>k<32. o_n s = 2 ^ k)"
  shows "main_body ev s =
           Inr (info True []
                  (verbose_text s @ [CHR 0x0A] @
                   ln (''fftGen: Number of points '' @ dec_int (sint (o_n s)) @
                       '' is not a power of two.'')))"
proof -
  have "o_n s AND (o_n s - 1) \<noteq> 0" using assms pow2_word[of "o_n s"] by blast
  then show ?thesis using assms(1) by (simp add: main_body_def)
qed

lemma main_body_int_min:
  assumes "o_n s = 2 ^ 31"
  shows "main_body ev s =
           Inr \<lparr>status = EXIT_FAILURE,
                out = (if o_license s \<noteq> 0 then licenseText else []),
                err = verbose_text s @ [CHR 0x0A] @
                      ln (''fftGen: Error allocating memory: '' @ strerror_text ev)\<rparr>"
proof -
  have "\<exists>k<32. o_n s = 2 ^ k" using assms by (intro exI[of _ 31]) simp
  then have "o_n s \<noteq> 0 \<and> o_n s AND (o_n s - 1) = 0" using pow2_word[of "o_n s"] by blast
  moreover have "sint (o_n s) < 0" unfolding assms by simp
  ultimately show ?thesis by (simp add: main_body_def Let_def header_def)
qed

lemma main_body_no_memory:
  assumes "o_n s = 2 ^ k" and "k < 31" and "\<not> (nzi_alloc ev \<and> swap_alloc ev)"
  shows "main_body ev s =
           Inr \<lparr>status = EXIT_FAILURE,
                out = (if o_license s \<noteq> 0 then licenseText else []),
                err = verbose_text s @ [CHR 0x0A] @
                      ln (''fftGen: Error allocating memory: '' @ strerror_text ev)\<rparr>"
proof -
  have "\<exists>k<32. o_n s = 2 ^ k" using assms(1,2) by (intro exI[of _ k]) simp
  then have "o_n s \<noteq> 0 \<and> o_n s AND (o_n s - 1) = 0" using pow2_word[of "o_n s"] by blast
  then show ?thesis using assms(3) by (auto simp add: main_body_def Let_def header_def)
qed

lemma main_body_generates:
  assumes "o_n s = 2 ^ k" and "k < 31" and "nzi_alloc ev" and "swap_alloc ev"
  shows "\<exists>ss. fftGen (2 ^ k) (flags_of s) = Inr ss \<and>
           main_body ev s =
             Inr \<lparr>status = EXIT_SUCCESS,
                  out = (if o_license s \<noteq> 0 then licenseText else []) @
                        render_all (fmt_e ev) ss,
                  err = verbose_text s\<rparr>"
proof -
  have "\<exists>k<32. o_n s = 2 ^ k" using assms(1,2) by (intro exI[of _ k]) simp
  then have t: "o_n s \<noteq> 0 \<and> o_n s AND (o_n s - 1) = 0" using pow2_word[of "o_n s"] by blast
  have si: "sint (o_n s) = 2 ^ k" unfolding assms(1) by (rule sint_pow2[OF assms(2)])
  have n: "nat (sint (o_n s)) = 2 ^ k" unfolding si by (simp add: nat_power_eq)
  obtain ss where ss: "fftGen (2 ^ k) (flags_of s) = Inr ss"
    using fftGen_total[of k "flags_of s"] by auto
  have "main_body ev s =
             Inr \<lparr>status = EXIT_SUCCESS,
                  out = (if o_license s \<noteq> 0 then licenseText else []) @
                        render_all (fmt_e ev) ss,
                  err = verbose_text s\<rparr>"
    using t ss assms(3,4) si unfolding main_body_def Let_def n
    by (simp add: header_def footer_def)
  then show ?thesis using ss by blast
qed

lemma number_option:
  assumes "scan_i ev [] = None" and "scan_i ev a = Some v" and "cur = ''n'' \<or> cur = ''-points''"
  shows "short_opts ev s cur (a # rest) = parse_args ev (s\<lparr>o_n := v\<rparr>) rest"
proof -
  have "checkOptions ev cur (a # rest) pOptions 0 s = (Ret 1 (s\<lparr>o_n := v\<rparr>) True, 0)"
    using assms by (auto simp add: pOptions_def checkOption_def scan_named_def)
  then show ?thesis using assms(3) by auto
qed

lemma number_attached:
  assumes "scan_i ev a = Some v" and "a \<noteq> []" and "hd a \<noteq> CHR ''=''"
  shows "short_opts ev s (CHR ''n'' # a) rest = parse_args ev (s\<lparr>o_n := v\<rparr>) rest"
proof -
  obtain c cs where a: "a = c # cs" using assms(2) by (cases a) auto
  have "checkOptions ev (CHR ''n'' # a) rest pOptions 0 s = (Ret 1 (s\<lparr>o_n := v\<rparr>) False, 0)"
    using assms a by (auto simp add: pOptions_def checkOption_def scan_named_def)
  then show ?thesis by auto
qed

lemma flag_letters:
  "short_opts ev s (CHR ''i'' # cs) rest = short_opts ev (s\<lparr>o_inv := o_inv s + 1\<rparr>) cs rest"
  "short_opts ev s (CHR ''r'' # cs) rest = short_opts ev (s\<lparr>o_realIn := o_realIn s + 1\<rparr>) cs rest"
  "short_opts ev s (CHR ''o'' # cs) rest = short_opts ev (s\<lparr>o_realOut := o_realOut s + 1\<rparr>) cs rest"
  "short_opts ev s (CHR ''m'' # cs) rest = short_opts ev (s\<lparr>o_symmIn := o_symmIn s + 1\<rparr>) cs rest"
  "short_opts ev s (CHR ''s'' # cs) rest = short_opts ev (s\<lparr>o_symmOut := o_symmOut s + 1\<rparr>) cs rest"
  "short_opts ev s (CHR ''l'' # cs) rest = short_opts ev (s\<lparr>o_license := o_license s + 1\<rparr>) cs rest"
  "short_opts ev s (CHR ''v'' # cs) rest = short_opts ev (s\<lparr>o_verbose := o_verbose s + 1\<rparr>) cs rest"
proof -
  have 1: "checkOptions ev (CHR ''i'' # cs) rest pOptions 0 s =
           (Ret (- 1) (s\<lparr>o_inv := o_inv s + 1\<rparr>) False, 1)"
    by (simp add: pOptions_def checkOption_def scan_named_def)
  have 2: "checkOptions ev (CHR ''r'' # cs) rest pOptions 0 s =
           (Ret (- 1) (s\<lparr>o_realIn := o_realIn s + 1\<rparr>) False, 2)"
    by (simp add: pOptions_def checkOption_def scan_named_def)
  have 3: "checkOptions ev (CHR ''o'' # cs) rest pOptions 0 s =
           (Ret (- 1) (s\<lparr>o_realOut := o_realOut s + 1\<rparr>) False, 3)"
    by (simp add: pOptions_def checkOption_def scan_named_def)
  have 4: "checkOptions ev (CHR ''m'' # cs) rest pOptions 0 s =
           (Ret (- 1) (s\<lparr>o_symmIn := o_symmIn s + 1\<rparr>) False, 4)"
    by (simp add: pOptions_def checkOption_def scan_named_def)
  have 5: "checkOptions ev (CHR ''s'' # cs) rest pOptions 0 s =
           (Ret (- 1) (s\<lparr>o_symmOut := o_symmOut s + 1\<rparr>) False, 5)"
    by (simp add: pOptions_def checkOption_def scan_named_def)
  have 6: "checkOptions ev (CHR ''l'' # cs) rest pOptions 0 s =
           (Ret (- 1) (s\<lparr>o_license := o_license s + 1\<rparr>) False, 6)"
    by (simp add: pOptions_def checkOption_def scan_named_def)
  have 7: "checkOptions ev (CHR ''v'' # cs) rest pOptions 0 s =
           (Ret (- 1) (s\<lparr>o_verbose := o_verbose s + 1\<rparr>) False, 7)"
    by (simp add: pOptions_def checkOption_def scan_named_def)
  show "short_opts ev s (CHR ''i'' # cs) rest = short_opts ev (s\<lparr>o_inv := o_inv s + 1\<rparr>) cs rest"
    by (subst short_opts.simps, simp only: 1, simp add: pOptions_def del: short_opts.simps)
  show "short_opts ev s (CHR ''r'' # cs) rest = short_opts ev (s\<lparr>o_realIn := o_realIn s + 1\<rparr>) cs rest"
    by (subst short_opts.simps, simp only: 2, simp add: pOptions_def del: short_opts.simps)
  show "short_opts ev s (CHR ''o'' # cs) rest = short_opts ev (s\<lparr>o_realOut := o_realOut s + 1\<rparr>) cs rest"
    by (subst short_opts.simps, simp only: 3, simp add: pOptions_def del: short_opts.simps)
  show "short_opts ev s (CHR ''m'' # cs) rest = short_opts ev (s\<lparr>o_symmIn := o_symmIn s + 1\<rparr>) cs rest"
    by (subst short_opts.simps, simp only: 4, simp add: pOptions_def del: short_opts.simps)
  show "short_opts ev s (CHR ''s'' # cs) rest = short_opts ev (s\<lparr>o_symmOut := o_symmOut s + 1\<rparr>) cs rest"
    by (subst short_opts.simps, simp only: 5, simp add: pOptions_def del: short_opts.simps)
  show "short_opts ev s (CHR ''l'' # cs) rest = short_opts ev (s\<lparr>o_license := o_license s + 1\<rparr>) cs rest"
    by (subst short_opts.simps, simp only: 6, simp add: pOptions_def del: short_opts.simps)
  show "short_opts ev s (CHR ''v'' # cs) rest = short_opts ev (s\<lparr>o_verbose := o_verbose s + 1\<rparr>) cs rest"
    by (subst short_opts.simps, simp only: 7, simp add: pOptions_def del: short_opts.simps)
qed

lemma unknown_long_option:
  assumes "cur = CHR ''-'' # w"
    and "cur \<notin> set (map lgOpt pOptions)" and "cur \<noteq> ''-version''" and "cur \<noteq> ''-help''"
    and "scan_named ev ''-points='' cur = None" and "scan_named ev ''-points'' cur = None"
  shows "short_opts ev s cur rest =
           Inl (info True [] ([CHR 0x0A] @ ln (''fftGen: Unknown option -'' @ cur) @ ln []))"
proof -
  have "checkOptions ev cur rest pOptions 0 s = (Ret 0 s False, 8)"
    using assms by (simp add: pOptions_def checkOption_def scan_named_def)
  then show ?thesis using assms(1,3,4) by (subst short_opts.simps) simp
qed


lemma main_outcome:
  "\<exists>r. main ev argv = Inr r \<and>
      (case parse_args ev opts0 argv of
         Inl x \<Rightarrow> r = x \<and> (failed r \<or> r = version_result \<or> r = help_result)
       | Inr s \<Rightarrow>
           if o_n s = 0 then failed r \<and> out r = []
           else if \<not> (\<exists>k<32. o_n s = 2 ^ k) then
             failed r \<and> out r = [] \<and> (\<exists>a b. err r = a @ ''power of two'' @ b)
           else if sint (o_n s) < 0 \<or> \<not> (nzi_alloc ev \<and> swap_alloc ev) then
             failed r \<and> out r = (if o_license s \<noteq> 0 then licenseText else []) \<and>
             err r = verbose_text s @ [CHR 0x0A] @
                     ln (''fftGen: Error allocating memory: '' @ strerror_text ev)
           else exit_code (status r) = 0 \<and> err r = verbose_text s \<and>
                (\<exists>ss. fftGen (nat (sint (o_n s))) (flags_of s) = Inr ss \<and>
                      out r = (if o_license s \<noteq> 0 then licenseText else []) @
                              render_all (fmt_e ev) ss))"
proof (cases "parse_args ev opts0 argv")
  case (Inl x)
  then show ?thesis using parse_stop(1)[OF Inl] by (simp add: main_def)
next
  case (Inr s)
  consider "o_n s = 0" | "o_n s \<noteq> 0" "\<not> (\<exists>k<32. o_n s = 2 ^ k)"
    | "o_n s = 2 ^ 31"
    | k where "o_n s = 2 ^ k" "k < 31" "\<not> (nzi_alloc ev \<and> swap_alloc ev)"
    | k where "o_n s = 2 ^ k" "k < 31" "nzi_alloc ev \<and> swap_alloc ev"
  proof -
    assume h: "o_n s = 0 \<Longrightarrow> thesis" "o_n s \<noteq> 0 \<Longrightarrow> \<not> (\<exists>k<32. o_n s = 2 ^ k) \<Longrightarrow> thesis"
      "o_n s = 2 ^ 31 \<Longrightarrow> thesis"
      "\<And>k. o_n s = 2 ^ k \<Longrightarrow> k < 31 \<Longrightarrow> \<not> (nzi_alloc ev \<and> swap_alloc ev) \<Longrightarrow> thesis"
      "\<And>k. o_n s = 2 ^ k \<Longrightarrow> k < 31 \<Longrightarrow> nzi_alloc ev \<and> swap_alloc ev \<Longrightarrow> thesis"
    show thesis
    proof (cases "\<exists>k<32. o_n s = 2 ^ k")
      case False
      then show ?thesis using h(1,2) by blast
    next
      case True
      then obtain k where k: "k < 32" "o_n s = 2 ^ k" by blast
      show ?thesis
      proof (cases "k = 31")
        case True
        then show ?thesis using h(3) k by simp
      next
        case False
        then have "k < 31" using k(1) by simp
        then show ?thesis using h(4)[OF k(2)] h(5)[OF k(2)] by blast
      qed
    qed
  qed
  then show ?thesis
  proof cases
    case 1
    then show ?thesis using Inr main_body_no_points[OF 1, of ev]
      by (simp add: main_def failed_def info_def exit_code_def ln_def)
  next
    case 2
    have "\<exists>a b. verbose_text s @ [CHR 0x0A] @
              ln (''fftGen: Number of points '' @ dec_int (sint (o_n s)) @ '' is not a power of two.'') @ usage =
             a @ ''power of two'' @ b"
      by (rule exI[of _ "verbose_text s @ [CHR 0x0A] @ ''fftGen: Number of points '' @ dec_int (sint (o_n s)) @ '' is not a ''"],
          rule exI[of _ "''.'' @ [CHR 0x0A] @ usage"]) (simp add: ln_def)
    then show ?thesis using Inr 2 main_body_not_pow2[OF 2, of ev]
      by (simp add: main_def failed_def info_def exit_code_def)
  next
    case 3
    have z: "o_n s \<noteq> 0" "\<exists>k<32. o_n s = 2 ^ k" "sint (o_n s) < 0"
      using 3 by (simp, intro exI[of _ 31], simp, simp)
    show ?thesis using Inr z main_body_int_min[OF 3, of ev]
      by (simp add: main_def failed_def exit_code_def ln_def)
  next
    case 4
    have kk: "k < 32" using 4(2) by simp
    have z: "o_n s \<noteq> 0" "\<exists>k<32. o_n s = 2 ^ k"
      using 4(1) kk pow2_word[of "o_n s"] by blast+
    show ?thesis unfolding Inr using Inr main_body_no_memory[OF 4]
      by (simp add: main_def failed_def exit_code_def ln_def z 4(3))
  next
    case 5
    have kk: "k < 32" using 5(2) by simp
    have z: "o_n s \<noteq> 0" "\<exists>k<32. o_n s = 2 ^ k"
      using 5(1) kk pow2_word[of "o_n s"] by blast+
    have si: "sint (o_n s) = 2 ^ k" unfolding 5(1) by (rule sint_pow2[OF 5(2)])
    have n: "nat (sint (o_n s)) = 2 ^ k" unfolding si by (simp add: nat_power_eq)
    have pos: "\<not> sint (o_n s) < 0" unfolding si by simp
    obtain ss where g: "fftGen (2 ^ k) (flags_of s) = Inr ss"
      and b: "main_body ev s = Inr \<lparr>status = EXIT_SUCCESS,
                  out = (if o_license s \<noteq> 0 then licenseText else []) @ render_all (fmt_e ev) ss,
                  err = verbose_text s\<rparr>"
      using main_body_generates[OF 5(1,2), of ev] 5(3) by blast
    have g': "fftGen (nat (sint (o_n s))) (flags_of s) = Inr ss" unfolding n by (rule g)
    have "main ev argv = Inr \<lparr>status = EXIT_SUCCESS,
                  out = (if o_license s \<noteq> 0 then licenseText else []) @ render_all (fmt_e ev) ss,
                  err = verbose_text s\<rparr>"
      using Inr b by (simp add: main_def)
    then show ?thesis unfolding Inr using g'
      by (simp add: z pos 5(3) exit_code_def)
  qed
qed

text \<open>
  C7. The run \<open>fftGen -l -n -2147483648\<close>, where \<open>%i\<close> reads the number and stores
  it: \<open>-2147483648\<close> is not a power of two, but the test \<open>n & (n-1)\<close> lets it pass. The
  program writes the licence note to the standard output, enters \<open>fftGen\<close> and ends
  with failure in \<open>malloc\<close>; the standard error holds the message of \<open>malloc\<close> and not
  the message that says \<open>power of two\<close>.
\<close>

theorem int_min_passes_test:
  "main \<lparr>scan_i = (\<lambda>t. if t = ''-2147483648'' then Some (- 2147483648) else None),
         fmt_e = (\<lambda>w. []), nzi_alloc = True, swap_alloc = True,
         strerror_text = ''Cannot allocate memory''\<rparr>
        [''-l'', ''-n'', ''-2147483648''] =
   Inr \<lparr>status = EXIT_FAILURE, out = licenseText,
        err = [CHR 0x0A] @ ln ''fftGen: Error allocating memory: Cannot allocate memory''\<rparr>"
proof -
  let ?E = "\<lparr>scan_i = (\<lambda>t. if t = ''-2147483648'' then Some (- 2147483648 :: 32 word) else None),
         fmt_e = (\<lambda>w :: real. []), nzi_alloc = True, swap_alloc = True,
         strerror_text = ''Cannot allocate memory''\<rparr>"
  let ?s = "opts0\<lparr>o_license := 1, o_n := - 2147483648\<rparr>"
  have sc: "scan_i ?E [] = None" "scan_i ?E ''-2147483648'' = Some (- 2147483648)" by simp_all
  have e: "short_opts ?E s' [] rest = parse_args ?E s' rest" for s' rest
    by (subst short_opts.simps) simp
  have "parse_args ?E opts0 [''-l'', ''-n'', ''-2147483648''] =
        short_opts ?E opts0 ''l'' [''-n'', ''-2147483648'']"
    by (simp del: short_opts.simps)
  also have "\<dots> = short_opts ?E (opts0\<lparr>o_license := o_license opts0 + 1\<rparr>) [] [''-n'', ''-2147483648'']"
    by (rule flag_letters(6))
  also have "\<dots> = parse_args ?E (opts0\<lparr>o_license := 1\<rparr>) [''-n'', ''-2147483648'']"
    unfolding e by (simp add: opts0_def)
  finally have l: "parse_args ?E opts0 [''-l'', ''-n'', ''-2147483648''] =
           parse_args ?E (opts0\<lparr>o_license := 1\<rparr>) [''-n'', ''-2147483648'']" .
  have "parse_args ?E (opts0\<lparr>o_license := 1\<rparr>) [''-n'', ''-2147483648''] =
        short_opts ?E (opts0\<lparr>o_license := 1\<rparr>) ''n'' [''-2147483648'']"
    by (simp del: short_opts.simps)
  also have "\<dots> = parse_args ?E (opts0\<lparr>o_license := 1, o_n := - 2147483648\<rparr>) []"
    by (rule number_option[OF sc]) simp
  finally have n: "parse_args ?E (opts0\<lparr>o_license := 1\<rparr>) [''-n'', ''-2147483648''] = Inr ?s"
    by simp
  have m: "o_n ?s = 2 ^ 31" by simp
  have "main ?E [''-l'', ''-n'', ''-2147483648''] = main_body ?E ?s"
    unfolding main_def l n by simp
  then show ?thesis unfolding main_body_int_min[OF m]
    by (simp add: opts0_def verbose_text_def)
qed

section \<open>The order of the records under input symmetry\<close>

lemma bit_reversal_top: "2 ^ q \<le> bit_reversal (Suc q) x \<longleftrightarrow> odd x"
proof -
  have r: "bit_reversal q (x div 2) < 2 ^ q" by (rule bit_reversal_less)
  show ?thesis
  proof (cases "even x")
    case True
    then show ?thesis using r by simp
  next
    case False
    then show ?thesis by (simp add: odd_iff_mod_2_eq_one)
  qed
qed

lemma bit_reversal_odd:
  assumes "x < 2 ^ Suc q"
  shows "odd (bit_reversal (Suc q) x) \<longleftrightarrow> 2 ^ q \<le> x"
proof -
  have "bit_reversal (Suc q) (bit_reversal (Suc q) x) = x"
    by (rule bit_reversal_invol[OF assms])
  then show ?thesis using bit_reversal_top[of q "bit_reversal (Suc q) x"] by simp
qed

lemma bit_reversal_one: "bit_reversal (Suc q) (Suc 0) = 2 ^ q"
  by simp

lemma bit_reversal_ones: "bit_reversal p (2 ^ p - 1) = 2 ^ p - 1"
proof (induction p)
  case 0
  then show ?case by simp
next
  case (Suc p)
  have "odd ((2::nat) ^ Suc p - 1)" by simp
  then have o: "(2 ^ Suc p - 1) mod 2 = (1::nat)"
    by (simp only: odd_iff_mod_2_eq_one)
  have d: "(2 ^ Suc p - 1) div 2 = (2::nat) ^ p - 1" by simp
  have "bit_reversal (Suc p) (2 ^ Suc p - 1) = 2 ^ p + bit_reversal p (2 ^ p - 1)"
    unfolding bit_reversal.simps o d by simp
  then show ?case using Suc by simp
qed

lemma bit_reversal_inj:
  assumes "x < 2 ^ p" "y < 2 ^ p" "bit_reversal p x = bit_reversal p y"
  shows "x = y"
  by (metis bit_reversal_invol assms)

lemma scan_back_spec:
  "(scan_back sw x k = 0 \<or>
      (scan_back sw x k \<le> k \<and>
       (x = m (sw ! scan_back sw x k) \<or> x = mr (sw ! scan_back sw x k)))) \<and>
   (\<forall>j. scan_back sw x k < j \<and> j \<le> k \<longrightarrow> x \<noteq> m (sw ! j) \<and> x \<noteq> mr (sw ! j))"
proof (induction k)
  case 0
  then show ?case by auto
next
  case (Suc k)
  show ?case
  proof (cases "x = m (sw ! Suc k) \<or> x = mr (sw ! Suc k)")
    case True
    then show ?thesis by auto
  next
    case False
    then have e: "scan_back sw x (Suc k) = scan_back sw x k" by simp
    show ?thesis unfolding e using Suc False
      by (auto simp: le_Suc_eq)
  qed
qed

lemma shift_up_nth:
  "i \<le> ii \<Longrightarrow> ii < length sw \<Longrightarrow> j < length sw \<Longrightarrow>
   shift_up sw ii i ! j = (if i < j \<and> j \<le> ii then sw ! (j - 1) else sw ! j)"
proof (induction sw ii i arbitrary: j rule: shift_up.induct)
  case (1 sw ii i)
  show ?case
  proof (cases "ii > i")
    case False
    then have "shift_up sw ii i = sw" by (subst shift_up.simps) simp
    then show ?thesis using False "1.prems" by auto
  next
    case True
    have e: "shift_up sw ii i = shift_up (sw[ii := sw ! (ii - 1)]) (ii - 1) i"
      using True by (subst shift_up.simps) simp
    have "shift_up (sw[ii := sw ! (ii - 1)]) (ii - 1) i ! j =
          (if i < j \<and> j \<le> ii - 1 then sw[ii := sw ! (ii - 1)] ! (j - 1)
           else sw[ii := sw ! (ii - 1)] ! j)"
      using "1.IH"[OF True, of j] True "1.prems" by simp
    then show ?thesis unfolding e using True "1.prems"
      by (auto simp: nth_list_update)
  qed
qed

lemma insert_records:
  assumes "0 < i" "i \<le> ns" "ns < length sw"
  shows "take (Suc ns) ((shift_up (sw[ns := R]) ns i)[i := R]) =
         take i (take ns sw) @ R # drop i (take ns sw)"
proof (rule nth_equalityI)
  show "length (take (Suc ns) ((shift_up (sw[ns := R]) ns i)[i := R])) =
        length (take i (take ns sw) @ R # drop i (take ns sw))"
    using assms by simp
next
  fix j
  assume "j < length (take (Suc ns) ((shift_up (sw[ns := R]) ns i)[i := R]))"
  then have j: "j \<le> ns" using assms by simp
  have len: "ns < length (sw[ns := R])" "j < length (sw[ns := R])" using assms j by simp_all
  have sh: "shift_up (sw[ns := R]) ns i ! j =
        (if i < j \<and> j \<le> ns then sw[ns := R] ! (j - 1) else sw[ns := R] ! j)"
    by (rule shift_up_nth[OF assms(2) len])
  consider "j < i" | "j = i" | "i < j" by linarith
  then show "take (Suc ns) ((shift_up (sw[ns := R]) ns i)[i := R]) ! j =
        (take i (take ns sw) @ R # drop i (take ns sw)) ! j"
  proof cases
    case 1
    then show ?thesis using j assms sh by (simp add: nth_append)
  next
    case 2
    then show ?thesis using j assms by (simp add: nth_append)
  next
    case 3
    then have "j - i = Suc (j - Suc i)" by simp
    then show ?thesis using 3 j assms sh by (simp add: nth_append min_def)
  qed
qed

lemma append_record:
  assumes "ns < length sw"
  shows "take (Suc ns) (sw[ns := R]) = take ns sw @ [R]"
  using assms by (simp add: take_Suc_conv_app_nth)


lemma scan_back_update: "k < j \<Longrightarrow> scan_back (sw[j := R]) x k = scan_back sw x k"
  by (induction k) auto

lemma add_swap_insert:
  assumes "ns < length sw"
  shows "\<exists>i R. i \<le> ns \<and>
           take (Suc ns) (add_swap n True mm mmr ns sw) =
             take i (take ns sw) @ R # drop i (take ns sw) \<and>
           m R = mm \<and> mr R = mmr \<and>
           (symmIn R \<longleftrightarrow> \<not> (mm \<le> n div 2 \<and> mmr \<le> n div 2)) \<and>
           (symmIn R \<longrightarrow> m_new R = (if mm > n div 2 then n - mm else mm) \<and>
                         mr_new R = (if mmr > n div 2 then n - mmr else mmr)) \<and>
           (i < ns \<longrightarrow> symmIn R \<and> 0 < i) \<and>
           (\<forall>x. (mm > n div 2 \<and> x = n - mm) \<or> (mmr > n div 2 \<and> x = n - mmr) \<longrightarrow>
                (\<forall>j. 0 < j \<and> j < ns \<longrightarrow> x \<notin> writes (sw ! j)) \<or>
                (\<exists>k. i \<le> k \<and> k < ns \<and> x \<in> writes (sw ! k)))"
proof (cases "mm \<le> n div 2 \<and> mmr \<le> n div 2")
  case True
  let ?R = "(sw ! ns)\<lparr>m := mm, mr := mmr, symmIn := False\<rparr>"
  have "add_swap n True mm mmr ns sw = sw[ns := ?R]"
    using add_swap_nosymm[of True mm n mmr ns sw] True assms by simp
  then have "take (Suc ns) (add_swap n True mm mmr ns sw) =
             take ns (take ns sw) @ ?R # drop ns (take ns sw)"
    using append_record[OF assms, of ?R] by simp
  moreover have "m ?R = mm" "mr ?R = mmr" "\<not> symmIn ?R" by simp_all
  ultimately show ?thesis using True
    by (intro exI[of _ ns] exI[of _ ?R]) auto
next
  case False
  let ?R = "\<lparr>m = mm, mr = mmr, m_new = (if mm > n div 2 then n - mm else mm),
             mr_new = (if mmr > n div 2 then n - mmr else mmr), symmIn = True\<rparr>"
  have r: "(sw[ns := (sw ! ns)\<lparr>m := mm, mr := mmr\<rparr>])[ns := (sw[ns := (sw ! ns)\<lparr>m := mm, mr := mmr\<rparr>] ! ns)
             \<lparr>m_new := (if mm > n div 2 then n - mm else mm),
              mr_new := (if mmr > n div 2 then n - mmr else mmr), symmIn := True\<rparr>] = sw[ns := ?R]"
    using assms by (simp add: SWAP_all_fields)
  define i_m where "i_m = (if mm > n div 2
      then scan_back sw (if mm > n div 2 then n - mm else mm) (ns - 1) else 0)"
  define i_mr where "i_mr = (if mmr > n div 2
      then scan_back sw (if mmr > n div 2 then n - mmr else mmr) (ns - 1) else 0)"
  define i' where "i' = (if i_mr > 0 \<and> i_m > 0 then (if i_mr > i_m then i_m else i_mr)
                       else if i_m > 0 then i_m else i_mr)"
  have sc: "scan_back (sw[ns := ?R]) x (ns - 1) = scan_back sw x (ns - 1)" if "0 < ns" for x
    using that by (intro scan_back_update) simp
  have sc0: "scan_back (sw[ns := ?R]) x (ns - 1) = scan_back sw x (ns - 1)" for x
  proof (cases "0 < ns")
    case True
    then show ?thesis by (rule sc)
  next
    case False
    then show ?thesis by simp
  qed
  have e: "add_swap n True mm mmr ns sw =
           (if i' > 0 then (shift_up (sw[ns := ?R]) ns i')[i' := ?R] else sw[ns := ?R])"
    unfolding add_swap_def Let_def r i'_def i_m_def i_mr_def sc0 using False
    by (simp only: if_True if_False not_not simp_thms)
  have le_m: "i_m \<le> ns - 1" and le_mr: "i_mr \<le> ns - 1"
    unfolding i_m_def i_mr_def using scan_back_le by auto
  then have le: "i' \<le> ns - 1" unfolding i'_def by auto
  define i where "i = (if i' > 0 then i' else ns)"
  have i_le: "i \<le> ns" using le by (auto simp: i_def)
  have tk: "take (Suc ns) (add_swap n True mm mmr ns sw) =
            take i (take ns sw) @ ?R # drop i (take ns sw)"
  proof (cases "i' > 0")
    case True
    then have "i' \<le> ns" using le by simp
    from insert_records[OF True this assms, of ?R] show ?thesis
      unfolding e using True by (simp add: i_def)
  next
    case False
    then show ?thesis unfolding e using append_record[OF assms, of ?R] by (simp add: i_def)
  qed
  have mid: "i < ns \<longrightarrow> 0 < i" by (auto simp: i_def)
  have found: "(\<forall>j. 0 < j \<and> j < ns \<longrightarrow> x \<notin> writes (sw ! j)) \<or>
               (\<exists>k. i \<le> k \<and> k < ns \<and> x \<in> writes (sw ! k))"
    if x: "scan_back sw x (ns - 1) = i_m \<or> scan_back sw x (ns - 1) = i_mr" for x
  proof (cases "scan_back sw x (ns - 1) = 0")
    case True
    then have "\<forall>j. 0 < j \<and> j \<le> ns - 1 \<longrightarrow> x \<noteq> m (sw ! j) \<and> x \<noteq> mr (sw ! j)"
      using scan_back_spec[of sw x "ns - 1"] by simp
    then have "\<forall>j. 0 < j \<and> j < ns \<longrightarrow> x \<notin> writes (sw ! j)"
      by (auto simp: writes_def)
    then show ?thesis by blast
  next
    case False
    let ?k = "scan_back sw x (ns - 1)"
    have k: "?k \<le> ns - 1" "x = m (sw ! ?k) \<or> x = mr (sw ! ?k)"
      using scan_back_spec[of sw x "ns - 1"] False by auto
    have "0 < ?k" using False by simp
    then have "i' > 0 \<and> i' \<le> ?k" using x unfolding i'_def by auto
    then have "i \<le> ?k" by (simp add: i_def)
    moreover have "?k < ns" using k(1) \<open>0 < ?k\<close> by simp
    moreover have "x \<in> writes (sw ! ?k)" using k(2) by (auto simp: writes_def)
    ultimately show ?thesis by blast
  qed
  have fr: "\<forall>x. (mm > n div 2 \<and> x = n - mm) \<or> (mmr > n div 2 \<and> x = n - mmr) \<longrightarrow>
                (\<forall>j. 0 < j \<and> j < ns \<longrightarrow> x \<notin> writes (sw ! j)) \<or>
                (\<exists>k. i \<le> k \<and> k < ns \<and> x \<in> writes (sw ! k))"
  proof (intro allI impI)
    fix x
    assume "(mm > n div 2 \<and> x = n - mm) \<or> (mmr > n div 2 \<and> x = n - mmr)"
    then have "scan_back sw x (ns - 1) = i_m \<or> scan_back sw x (ns - 1) = i_mr"
      by (auto simp: i_m_def i_mr_def)
    then show "(\<forall>j. 0 < j \<and> j < ns \<longrightarrow> x \<notin> writes (sw ! j)) \<or>
               (\<exists>k. i \<le> k \<and> k < ns \<and> x \<in> writes (sw ! k))"
      by (rule found)
  qed
  have "m ?R = mm" "mr ?R = mmr" "symmIn ?R" 
    "m_new ?R = (if mm > n div 2 then n - mm else mm)"
    "mr_new ?R = (if mmr > n div 2 then n - mmr else mmr)" by simp_all
  with i_le tk mid fr False show ?thesis
    by (intro exI[of _ i] exI[of _ ?R]) (simp only: simp_thms not_False_eq_True)
qed


lemma planned_min:
  assumes "planned p mm r" "m r < 2 ^ p" "x \<in> writes r"
  shows "m r = min x (bit_reversal p x)"
proof -
  have a: "mr r = bit_reversal p (m r)" "m r < mr r" using assms(1) by (simp_all add: planned_def)
  have b: "bit_reversal p (mr r) = m r" unfolding a(1) by (rule bit_reversal_invol[OF assms(2)])
  from assms(3) have "x = m r \<or> x = mr r" by (simp add: writes_def)
  then show ?thesis using a b by auto
qed

lemma planned_mono: "planned p mm r \<Longrightarrow> planned p (Suc mm) r"
  by (simp add: planned_def)

lemma distinct_insert_mid:
  assumes "distinct xs" "a \<notin> set xs"
  shows "distinct (take i xs @ a # drop i xs)"
proof -
  have "distinct (take i xs @ drop i xs)" using assms(1) by simp
  then have "distinct (take i xs) \<and> distinct (drop i xs) \<and>
             set (take i xs) \<inter> set (drop i xs) = {}"
    unfolding distinct_append .
  then show ?thesis using assms(2) by (auto dest: in_set_takeD in_set_dropD)
qed

lemma sorted_wrt_insert_mid:
  assumes "sorted_wrt P xs" "\<forall>x \<in> set (take i xs). P x a" "\<forall>y \<in> set (drop i xs). P a y"
  shows "sorted_wrt P (take i xs @ a # drop i xs)"
proof -
  have "sorted_wrt P (take i xs @ drop i xs)" using assms(1) by simp
  then show ?thesis using assms(2,3) unfolding sorted_wrt_append by simp
qed

lemma add_swap_step:
  fixes q mm ns :: nat and sw :: "SWAP list"
  defines "rs' \<equiv> take (Suc ns) (add_swap (2 ^ Suc q) True mm (bit_reversal (Suc q) mm) ns sw)"
  assumes ns: "ns < length sw"
    and mm: "mm < 2 ^ Suc q"
    and gt: "mm < bit_reversal (Suc q) mm"
    and pl: "\<forall>r \<in> set (take ns sw). planned (Suc q) mm r"
    and di: "distinct (map m (take ns sw))"
    and sf: "no_stale_read (take ns sw)"
    and z: "(mm = 1 \<and> ns = 0) \<or> (0 < ns \<and> m (sw ! 0) = 1)"
  shows "(\<forall>r \<in> set rs'. planned (Suc q) (Suc mm) r) \<and> distinct (map m rs') \<and>
         no_stale_read rs' \<and> m (rs' ! 0) = 1 \<and>
         (\<exists>R. m R = mm \<and> set rs' = insert R (set (take ns sw)))"
proof -
  note bit_reversal.simps [simp del]
  let ?n = "(2::nat) ^ Suc q"
  let ?h = "(2::nat) ^ q"
  let ?b = "bit_reversal (Suc q)"
  let ?mmr = "?b mm"
  let ?rs = "take ns sw"
  have h: "?n div 2 = ?h" by simp
  have nh: "?n = ?h + ?h" by simp
  have hpos: "0 < ?h" by simp
  have mmr_lt: "?mmr < ?n" by (rule bit_reversal_less)
  have inv_mm: "?b ?mmr = mm" by (rule bit_reversal_invol[OF mm])
  obtain i R where i: "i \<le> ns"
    and tk: "rs' = take i ?rs @ R # drop i ?rs"
    and R: "m R = mm" "mr R = ?mmr"
    and Rs: "symmIn R \<longleftrightarrow> \<not> (mm \<le> ?h \<and> ?mmr \<le> ?h)"
    and Rn: "symmIn R \<longrightarrow> m_new R = (if mm > ?h then ?n - mm else mm) \<and>
                         mr_new R = (if ?mmr > ?h then ?n - ?mmr else ?mmr)"
    and mid: "i < ns \<longrightarrow> symmIn R \<and> 0 < i"
    and fr: "\<forall>x. (mm > ?h \<and> x = ?n - mm) \<or> (?mmr > ?h \<and> x = ?n - ?mmr) \<longrightarrow>
                (\<forall>j. 0 < j \<and> j < ns \<longrightarrow> x \<notin> writes (sw ! j)) \<or>
                (\<exists>k. i \<le> k \<and> k < ns \<and> x \<in> writes (sw ! k))"
    using add_swap_insert[OF ns, of ?n mm ?mmr] unfolding h rs'_def by blast
  have Rsym: "symmIn R \<longleftrightarrow> ?h < ?mmr" using Rs gt by auto
  have plR: "planned (Suc q) (Suc mm) R"
    using R Rsym Rn gt by (auto simp: planned_def)
  have set': "set rs' = insert R (set ?rs)"
  proof -
    have "set (take i ?rs) \<union> set (drop i ?rs) = set ?rs"
      by (metis append_take_drop_id set_append)
    then show ?thesis unfolding tk by auto
  qed
  have c1: "\<forall>r \<in> set rs'. planned (Suc q) (Suc mm) r"
    unfolding set' using plR pl planned_mono by auto
  have mlt: "m r < mm" if "r \<in> set ?rs" for r
    using pl that by (simp add: planned_def)
  have c2: "distinct (map m rs')"
  proof -
    have "mm \<notin> set (map m ?rs)" using mlt by auto
    from distinct_insert_mid[OF di this, of i] show ?thesis
      unfolding tk by (simp add: R take_map drop_map)
  qed
  have c4: "m (rs' ! 0) = 1"
  proof (cases "ns = 0")
    case True
    then show ?thesis using z i R unfolding tk by simp
  next
    case False
    then have "0 < i" using mid i by (cases "i < ns") auto
    then show ?thesis using z False ns unfolding tk by (auto simp add: nth_append)
  qed
  have own: "mm \<notin> writes r \<and> ?mmr \<notin> writes r" if r: "r \<in> set ?rs" for r
  proof -
    have p: "planned (Suc q) mm r" using pl r by simp
    have l: "m r < ?n" using mlt[OF r] mm by simp
    have "x \<in> writes r \<Longrightarrow> x \<noteq> mm \<and> x \<noteq> ?mmr" for x
      using planned_min[OF p l, of x] mlt[OF r] gt inv_mm by auto
    then show ?thesis by blast
  qed
  have odd_mm: "odd mm" if "?h < ?mmr"
    using that bit_reversal_top[of q mm] by simp
  have later: "reads y \<inter> writes R = {}" if y: "y \<in> set ?rs" and s: "symmIn R" for y
  proof (cases "symmIn y")
    case False
    then have "reads y = writes y" by (simp add: reads_def writes_def)
    then show ?thesis using own[OF y] R by (auto simp: writes_def)
  next
    case True
    have p: "planned (Suc q) mm y" using pl y by simp
    have big: "?h < ?mmr" using s Rsym by simp
    have ybig: "?h < mr y" and ymr: "mr y = ?b (m y)"
      and yn: "m_new y = (if ?h < m y then ?n - m y else m y)" "mr_new y = ?n - mr y"
      using p True by (simp_all add: planned_def)
    have ylt: "mr y < ?n" unfolding ymr by (rule bit_reversal_less)
    have a: "mr_new y \<noteq> ?mmr" using yn ybig big by simp
    have b: "mr_new y \<noteq> mm"
    proof (cases "?h < mm")
      case True
      then show ?thesis using yn ybig by simp
    next
      case False
      then have "\<not> ?h \<le> m y" using mlt[OF y] by simp
      moreover have "m y < ?n" using mlt[OF y] mm by simp
      ultimately have "even (mr y)" unfolding ymr using bit_reversal_odd[of "m y" q] by simp
      then have "even (?n - mr y)" using ylt by simp
      then show ?thesis using odd_mm[OF big] yn by auto
    qed
    have c: "m_new y \<noteq> mm \<and> m_new y \<noteq> ?mmr"
    proof (cases "?h < m y")
      case True
      then have "?n - m y < ?h" using hpos unfolding nh by linarith
      moreover have "?h < mm" using True mlt[OF y] by simp
      ultimately show ?thesis using yn True big by simp
    next
      case False
      then have "m_new y \<in> writes y" using yn by (simp add: writes_def)
      then show ?thesis using own[OF y] by metis
    qed
    show ?thesis using a b c True R by (auto simp: reads_def writes_def)
  qed
  have c3: "no_stale_read rs'"
    unfolding no_stale_read_def tk
  proof (rule sorted_wrt_insert_mid)
    show "sorted_wrt (\<lambda>a b. reads b \<inter> writes a = {}) ?rs"
      using sf by (simp add: no_stale_read_def)
  next
    show "\<forall>y \<in> set (drop i ?rs). reads y \<inter> writes R = {}"
    proof (cases "i < ns")
      case True
      then have "symmIn R" using mid by simp
      then show ?thesis using later by (auto dest: in_set_dropD)
    next
      case False
      then show ?thesis using i by simp
    qed
  next
    show "\<forall>x \<in> set (take i ?rs). reads R \<inter> writes x = {}"
    proof
      fix y
      assume "y \<in> set (take i ?rs)"
      then obtain j where j: "j < i" "j < ns" and yj: "y = sw ! j"
        using i ns by (auto simp: in_set_conv_nth)
      have yin: "y \<in> set ?rs" using j ns unfolding yj
        by (metis length_take min.absorb2 less_imp_le nth_mem nth_take)
      have foreign: "x \<notin> writes y"
        if x: "(mm > ?h \<and> x = ?n - mm) \<or> (?mmr > ?h \<and> x = ?n - ?mmr)" for x
      proof (cases "j = 0")
        case True
        then have m0: "m y = 1" using z j yj by auto
        have "planned (Suc q) mm y" using pl yin by simp
        then have "mr y = ?h" using m0 by (simp add: planned_def bit_reversal_one)
        then have w: "writes y = {1, ?h}" using m0 by (simp add: writes_def)
        have "x < ?h" using x mm mmr_lt by auto
        moreover have "x \<noteq> 1"
        proof
          assume x1: "x = 1"
          have ones: "?b (?n - 1) = ?n - 1" by (rule bit_reversal_ones)
          from x x1 have "mm = ?n - 1 \<or> ?mmr = ?n - 1" using mm mmr_lt by auto
          then have "?mmr = mm" using ones inv_mm by metis
          then show False using gt by simp
        qed
        ultimately show ?thesis unfolding w by simp
      next
        case False
        from fr x have "(\<forall>j. 0 < j \<and> j < ns \<longrightarrow> x \<notin> writes (sw ! j)) \<or>
                (\<exists>k. i \<le> k \<and> k < ns \<and> x \<in> writes (sw ! k))" by blast
        then show ?thesis
        proof
          assume "\<forall>j. 0 < j \<and> j < ns \<longrightarrow> x \<notin> writes (sw ! j)"
          then show ?thesis using False j yj by simp
        next
          assume "\<exists>k. i \<le> k \<and> k < ns \<and> x \<in> writes (sw ! k)"
          then obtain k where k: "i \<le> k" "k < ns" "x \<in> writes (sw ! k)" by blast
          have kin: "sw ! k \<in> set ?rs" using k ns
            by (metis length_take min.absorb2 less_imp_le nth_mem nth_take)
          show ?thesis
          proof
            assume xy: "x \<in> writes y"
            have py: "planned (Suc q) mm y" and pk: "planned (Suc q) mm (sw ! k)"
              using pl yin kin by simp_all
            have ly: "m y < ?n" and lk: "m (sw ! k) < ?n"
              using mlt[OF yin] mlt[OF kin] mm by simp_all
            have "m y = min x (?b x)"
              by (rule planned_min[OF py ly xy])
            moreover have "m (sw ! k) = min x (?b x)"
              by (rule planned_min[OF pk lk k(3)])
            ultimately have "map m ?rs ! j = map m ?rs ! k"
              using j k ns yj by simp
            moreover have "j < length (map m ?rs)" "k < length (map m ?rs)"
              using j k ns by simp_all
            ultimately have "j = k"
              using di nth_eq_iff_index_eq by blast
            then show False using j k by simp
          qed
        qed
      qed
      show "reads R \<inter> writes y = {}"
      proof (cases "symmIn R")
        case False
        then show ?thesis using own[OF yin] R by (auto simp: reads_def)
      next
        case True
        then have big: "?h < ?mmr" using Rsym by simp
        have r2: "mr_new R \<notin> writes y" using Rn True big foreign[of "?n - ?mmr"] by simp
        have r1: "m_new R \<notin> writes y"
        proof (cases "?h < mm")
          case True
          then show ?thesis using Rn \<open>symmIn R\<close> foreign[of "?n - mm"] by simp
        next
          case False
          then show ?thesis using Rn \<open>symmIn R\<close> own[OF yin] by simp
        qed
        show ?thesis using r1 r2 True by (simp add: reads_def)
      qed
    qed
  qed
  have c5: "\<exists>R. m R = mm \<and> set rs' = insert R (set (take ns sw))"
    using R(1) set' by blast
  show ?thesis using c1 c2 c3 c4 c5 by blast
qed


lemma planner_symm_invariant:
  assumes "planner (2 ^ Suc (Suc q)) True = Inr st"
  shows "nSwap st < 2 ^ Suc (Suc q) \<and> length (swap st) = 2 ^ Suc (Suc q) \<and>
         (\<forall>r \<in> set (records st). planned (Suc (Suc q)) (2 ^ Suc (Suc q)) r) \<and>
         distinct (map m (records st)) \<and> no_stale_read (records st) \<and>
         (\<forall>x. 0 < x \<and> x < 2 ^ Suc (Suc q) \<and> x < bit_reversal (Suc (Suc q)) x \<longrightarrow>
              (\<exists>r \<in> set (records st). m r = x))"
proof -
  note bit_reversal.simps [simp del]
  let ?p = "Suc (Suc q)"
  let ?n = "(2::nat) ^ ?p"
  let ?I = "\<lambda>mm st. 1 \<le> mm \<and> mm \<le> ?n \<and> cur_mr st = bit_reversal ?p (mm - 1) \<and>
              length (swap st) = ?n \<and> nSwap st < mm \<and>
              (\<forall>r \<in> set (take (nSwap st) (swap st)). planned ?p mm r) \<and>
              distinct (map m (take (nSwap st) (swap st))) \<and>
              no_stale_read (take (nSwap st) (swap st)) \<and>
              ((mm = 1 \<and> nSwap st = 0) \<or> (0 < nSwap st \<and> m (swap st ! 0) = 1)) \<and>
              (\<forall>x. 0 < x \<and> x < mm \<and> x < bit_reversal ?p x \<longrightarrow>
                   (\<exists>r \<in> set (take (nSwap st) (swap st)). m r = x))"
  let ?st0 = "\<lparr>cur_mr = 0, nSwap = 0, swap = swap_init ?n\<rparr>"
  have init: "?I 1 ?st0"
    by (auto simp add: swap_init_def no_stale_read_def)
  have run: "plan_loop ?n True 1 ?st0 = Inr st"
    using assms by (simp add: planner_def)
  have step: "?I (mm + 1) (if mmr > mm then
                \<lparr>cur_mr = mmr, nSwap = nSwap st + 1,
                 swap = add_swap ?n True mm mmr (nSwap st) (swap st)\<rparr>
              else st\<lparr>cur_mr := mmr\<rparr>)"
    if I: "?I mm st" and lt: "mm < ?n" and nx: "next_mr ?n (cur_mr st) = Inr mmr"
    for mm :: nat and st :: pstate and mmr :: nat
  proof -
    have m1: "1 \<le> mm" using I by simp
    have "Suc (mm - 1) < 2 ^ ?p" using lt m1 by simp
    from next_mr_bit_reversal[OF this] have mmr: "mmr = bit_reversal ?p mm"
      using I nx m1 by simp
    show ?thesis
    proof (cases "mmr > mm")
      case False
      have "mm \<noteq> 1"
      proof
        assume "mm = 1"
        then have "mmr = 2 ^ Suc q" using mmr bit_reversal_one[of "Suc q"] by simp
        moreover have "(1::nat) < 2 ^ Suc q"
          using one_less_power[of "2::nat" "Suc q"] by simp
        ultimately show False using False \<open>mm = 1\<close> by simp
      qed
      have cov: "\<forall>x. 0 < x \<and> x < mm + 1 \<and> x < bit_reversal ?p x \<longrightarrow>
                   (\<exists>r \<in> set (take (nSwap st) (swap st)). m r = x)"
      proof (intro allI impI)
        fix x
        assume x: "0 < x \<and> x < mm + 1 \<and> x < bit_reversal ?p x"
        then have "x \<noteq> mm" using False mmr by auto
        then have "0 < x \<and> x < mm \<and> x < bit_reversal ?p x" using x by simp
        then show "\<exists>r \<in> set (take (nSwap st) (swap st)). m r = x" using I by blast
      qed
      have old: "\<forall>r \<in> set (take (nSwap st) (swap st)). planned ?p (mm + 1) r"
        using I planned_mono by auto
      show ?thesis using I lt mmr False \<open>mm \<noteq> 1\<close> old cov by simp
    next
      case True
      let ?rs' = "take (Suc (nSwap st)) (add_swap ?n True mm (bit_reversal ?p mm) (nSwap st) (swap st))"
      have ns: "nSwap st < length (swap st)" using I lt by simp
      have gt: "mm < bit_reversal ?p mm" using True mmr by simp
      have pl: "\<forall>r \<in> set (take (nSwap st) (swap st)). planned ?p mm r" using I by blast
      have di: "distinct (map m (take (nSwap st) (swap st)))" using I by blast
      have sf: "no_stale_read (take (nSwap st) (swap st))" using I by blast
      have z: "(mm = 1 \<and> nSwap st = 0) \<or> (0 < nSwap st \<and> m (swap st ! 0) = 1)" using I by blast
      have res: "(\<forall>r \<in> set ?rs'. planned ?p (Suc mm) r) \<and> distinct (map m ?rs') \<and>
         no_stale_read ?rs' \<and> m (?rs' ! 0) = 1 \<and>
         (\<exists>R. m R = mm \<and> set ?rs' = insert R (set (take (nSwap st) (swap st))))"
        by (rule add_swap_step[OF ns lt gt pl di sf z])
      then have hd: "m (add_swap ?n True mm (bit_reversal ?p mm) (nSwap st) (swap st) ! 0) = 1"
        by simp
      obtain R where R: "m R = mm" "set ?rs' = insert R (set (take (nSwap st) (swap st)))"
        using res by blast
      have cov: "\<forall>x. 0 < x \<and> x < mm + 1 \<and> x < bit_reversal ?p x \<longrightarrow>
                   (\<exists>r \<in> set ?rs'. m r = x)"
      proof (intro allI impI)
        fix x
        assume x: "0 < x \<and> x < mm + 1 \<and> x < bit_reversal ?p x"
        show "\<exists>r \<in> set ?rs'. m r = x"
        proof (cases "x = mm")
          case True
          then show ?thesis using R by auto
        next
          case False
          then have "0 < x \<and> x < mm \<and> x < bit_reversal ?p x" using x by simp
          then have "\<exists>r \<in> set (take (nSwap st) (swap st)). m r = x" using I by blast
          then show ?thesis unfolding R(2) by blast
        qed
      qed
      show ?thesis using res hd cov True I lt mmr by simp
    qed
  qed
  have "?I (max 1 ?n) st"
  proof (rule plan_loop_invariant[where I = ?I, OF _ _ init run], goal_cases)
    case (1 mm st mmr)
    from step[OF 1(1) 1(2) 1(4)] show ?case unfolding if_P[OF 1(3)] .
  next
    case (2 mm st mmr)
    from step[OF 2(1) 2(2) 2(4)] show ?case unfolding if_not_P[OF 2(3)] .
  qed
  then show ?thesis by (simp add: records_def)
qed

lemma planner_symm_small:
  "planner (2 ^ 0) True = Inr \<lparr>cur_mr = 0, nSwap = 0, swap = swap_init 1\<rparr>"
  "planner (2 ^ Suc 0) True = Inr \<lparr>cur_mr = 1, nSwap = 0, swap = swap_init 2\<rparr>"
proof -
  show "planner (2 ^ 0) True = Inr \<lparr>cur_mr = 0, nSwap = 0, swap = swap_init 1\<rparr>"
    unfolding planner_def by (subst plan_loop.simps) simp
  have h: "halve_k 2 0 2 = Inr 1" by (subst halve_k.simps) simp
  show "planner (2 ^ Suc 0) True = Inr \<lparr>cur_mr = 1, nSwap = 0, swap = swap_init 2\<rparr>"
    unfolding planner_def
    by (subst plan_loop.simps, simp add: next_mr_def h, subst plan_loop.simps, simp)
qed

lemma no_stale_read_planner:
  "case planner (2 ^ p) True of Inl e \<Rightarrow> False | Inr st \<Rightarrow> no_stale_read (records st)"
proof -
  consider "p = 0" | "p = Suc 0" | q where "p = Suc (Suc q)"
    by (metis not0_implies_Suc)
  then show ?thesis
  proof cases
    case 1
    then show ?thesis using planner_symm_small(1) by (simp add: records_def no_stale_read_def)
  next
    case 2
    then show ?thesis using planner_symm_small(2) by (simp add: records_def no_stale_read_def)
  next
    case 3
    obtain st where st: "planner (2 ^ p) True = Inr st" using planner_total[of p True] by blast
    then have "no_stale_read (records st)" using planner_symm_invariant[of q st] 3 by simp
    then show ?thesis using st by simp
  qed
qed


lemma planner_sixteen:
  "(case planner 16 True of
      Inl e \<Rightarrow> []
    | Inr st \<Rightarrow> map (\<lambda>r. (m r, mr r, if symmIn r then Some (m_new r, mr_new r) else None))
                 (records st)) =
   [(1, 8, None), (11, 13, Some (5, 3)), (3, 12, Some (3, 4)), (7, 14, Some (7, 2)),
    (2, 4, None), (5, 10, Some (5, 6))]"
  by code_simp

lemma run_swap_any:
  "xr (run (swap_stmts n ri r) s) = rec_eff n False r (xr s)"
  "xi (run (swap_stmts n ri r) s) = (if ri then xi s else rec_eff n True r (xi s))"
  by (simp_all add: swap_stmts_def run_def swap_at_def rec_eff_def sgn_at_def Let_def)

lemma run_records:
  "xr (run (concat (map (swap_stmts n ri) rs)) s) = fold (rec_eff n False) rs (xr s) \<and>
   xi (run (concat (map (swap_stmts n ri) rs)) s) =
     (if ri then xi s else fold (rec_eff n True) rs (xi s))"
proof (induction rs arbitrary: s)
  case Nil
  then show ?case by simp
next
  case (Cons r rs)
  have "run (concat (map (swap_stmts n ri) (r # rs))) s =
        run (concat (map (swap_stmts n ri) rs)) (run (swap_stmts n ri r) s)"
    by (simp add: run_append)
  then show ?case using Cons[of "run (swap_stmts n ri r) s"] run_swap_any[of n ri r s]
    by (cases ri) simp_all
qed

lemma run_fill:
  fixes h :: nat and L :: "nat \<Rightarrow> bool"
  assumes "\<forall>j \<in> set js. h < j \<and> j < h + h" "distinct js"
    and "length (xr s) = h + h" "length (xi s) = h + h"
  defines "g \<equiv> \<lambda>i. if L i then [] else [FillR i (h + h - i), CopyNeg i (h + h - i)]"
  shows "length (xr (run (concat (map g js)) s)) = h + h \<and>
         length (xi (run (concat (map g js)) s)) = h + h \<and>
         (\<forall>i < h + h. xr (run (concat (map g js)) s) ! i =
              (if i \<in> set js \<and> \<not> L i then xr s ! (h + h - i) else xr s ! i)) \<and>
         (\<forall>i < h + h. xi (run (concat (map g js)) s) ! i =
              (if i \<in> set js \<and> \<not> L i then - (xi s ! (h + h - i)) else xi s ! i))"
  using assms(1-4)
proof (induction js arbitrary: s)
  case Nil
  then show ?case by simp
next
  case (Cons j js)
  let ?s1 = "run (g j) s"
  have j: "h < j" "j < h + h" using Cons.prems(1) by simp_all
  have l1: "length (xr ?s1) = h + h" "length (xi ?s1) = h + h"
    using Cons.prems(3,4) by (simp_all add: g_def run_def)
  have x1: "xr ?s1 = (if L j then xr s else (xr s)[j := xr s ! (h + h - j)])"
    and y1: "xi ?s1 = (if L j then xi s else (xi s)[j := - (xi s ! (h + h - j))])"
    by (simp_all add: g_def run_def)
  have e: "run (concat (map g (j # js))) s = run (concat (map g js)) ?s1"
    by (simp add: run_append)
  have p1: "\<forall>j \<in> set js. h < j \<and> j < h + h" and p2: "distinct js" and nj: "j \<notin> set js"
    using Cons.prems(1,2) by simp_all
  note IH = Cons.IH[OF p1 p2 l1]
  have src: "h + h - i \<noteq> j" if "i \<in> set js" for i
    using that p1 j by (metis add_diff_cancel_left' diff_less_mono2 less_imp_le not_less_iff_gr_or_eq  less_trans nat_add_left_cancel_less)
  have xa: "xr ?s1 ! k = xr s ! k" and ya: "xi ?s1 ! k = xi s ! k" if "k \<noteq> j" for k
    using that x1 y1 by simp_all
  have xb: "xr ?s1 ! j = (if L j then xr s ! j else xr s ! (h + h - j))"
    and yb: "xi ?s1 ! j = (if L j then xi s ! j else - (xi s ! (h + h - j)))"
    using x1 y1 j Cons.prems(3,4) by simp_all
  show ?case unfolding e
  proof (intro conjI allI impI)
    show "length (xr (run (concat (map g js)) ?s1)) = h + h" using IH by blast
    show "length (xi (run (concat (map g js)) ?s1)) = h + h" using IH by blast
  next
    fix i
    assume i: "i < h + h"
    show "xr (run (concat (map g js)) ?s1) ! i =
          (if i \<in> set (j # js) \<and> \<not> L i then xr s ! (h + h - i) else xr s ! i)"
    proof (cases "i = j")
      case True
      then show ?thesis using IH[THEN conjunct2, THEN conjunct2, THEN conjunct1] i nj xb by simp
    next
      case False
      then show ?thesis using IH[THEN conjunct2, THEN conjunct2, THEN conjunct1] i xa src by auto
    qed
  next
    fix i
    assume i: "i < h + h"
    show "xi (run (concat (map g js)) ?s1) ! i =
          (if i \<in> set (j # js) \<and> \<not> L i then - (xi s ! (h + h - i)) else xi s ! i)"
    proof (cases "i = j")
      case True
      then show ?thesis using IH[THEN conjunct2, THEN conjunct2, THEN conjunct2] i nj yb by simp
    next
      case False
      then show ?thesis using IH[THEN conjunct2, THEN conjunct2, THEN conjunct2] i ya src by auto
    qed
  qed
qed


lemma rec_eff_value:
  assumes "m r < length cur" "mr r < length cur" "m r \<noteq> mr r" "symmIn r \<longrightarrow> mr_new r \<noteq> mr r"
    and "symmIn r \<longrightarrow> sgn_at n neg (m r) (cur ! m_new r) = T (mr r) \<and>
                       sgn_at n neg (mr r) (cur ! mr_new r) = T (m r)"
    and "\<not> symmIn r \<longrightarrow> cur ! m r = T (mr r) \<and> cur ! mr r = T (m r)"
  shows "rec_eff n neg r cur = cur[mr r := T (mr r), m r := T (m r)]"
proof (cases "symmIn r")
  case True
  then show ?thesis using assms by (simp add: rec_eff_def Let_def)
next
  case False
  then show ?thesis using assms by (simp add: rec_eff_def swap_at_def list_update_swap)
qed

lemma fold_records:
  assumes "length cur = n"
    and "\<forall>r \<in> set rs. m r < n \<and> mr r < n \<and> m r \<noteq> mr r \<and> (symmIn r \<longrightarrow> mr_new r \<noteq> mr r)"
    and "sorted_wrt (\<lambda>a b. reads b \<inter> writes a = {}) rs"
    and "\<forall>r \<in> set rs.
           (symmIn r \<longrightarrow> sgn_at n neg (m r) (cur ! m_new r) = T (mr r) \<and>
                          sgn_at n neg (mr r) (cur ! mr_new r) = T (m r)) \<and>
           (\<not> symmIn r \<longrightarrow> cur ! m r = T (mr r) \<and> cur ! mr r = T (m r))"
  shows "length (fold (rec_eff n neg) rs cur) = n \<and>
         (\<forall>i < n. fold (rec_eff n neg) rs cur ! i =
                    (if \<exists>r \<in> set rs. i \<in> writes r then T i else cur ! i))"
  using assms
proof (induction rs arbitrary: cur)
  case Nil
  then show ?case by simp
next
  case (Cons r rs)
  let ?c1 = "cur[mr r := T (mr r), m r := T (m r)]"
  have b: "m r < n" "mr r < n" "m r \<noteq> mr r" "symmIn r \<longrightarrow> mr_new r \<noteq> mr r"
    using Cons.prems(2) by simp_all
  have v: "symmIn r \<longrightarrow> sgn_at n neg (m r) (cur ! m_new r) = T (mr r) \<and>
                       sgn_at n neg (mr r) (cur ! mr_new r) = T (m r)"
      "\<not> symmIn r \<longrightarrow> cur ! m r = T (mr r) \<and> cur ! mr r = T (m r)"
    using Cons.prems(4) by simp_all
  have e: "rec_eff n neg r cur = ?c1"
    using rec_eff_value[of r cur n neg T] b v Cons.prems(1) by simp
  have l1: "length ?c1 = n" using Cons.prems(1) by simp
  have b1: "\<forall>r \<in> set rs. m r < n \<and> mr r < n \<and> m r \<noteq> mr r \<and> (symmIn r \<longrightarrow> mr_new r \<noteq> mr r)"
    using Cons.prems(2) by simp
  have o1: "sorted_wrt (\<lambda>a b. reads b \<inter> writes a = {}) rs"
    and hd: "\<forall>y \<in> set rs. reads y \<inter> writes r = {}"
    using Cons.prems(3) by simp_all
  have keep: "?c1 ! x = cur ! x" if "x \<notin> writes r" for x
    using that by (simp add: writes_def)
  have v1: "\<forall>r \<in> set rs.
           (symmIn r \<longrightarrow> sgn_at n neg (m r) (?c1 ! m_new r) = T (mr r) \<and>
                          sgn_at n neg (mr r) (?c1 ! mr_new r) = T (m r)) \<and>
           (\<not> symmIn r \<longrightarrow> ?c1 ! m r = T (mr r) \<and> ?c1 ! mr r = T (m r))"
  proof
    fix y
    assume y: "y \<in> set rs"
    have d: "reads y \<inter> writes r = {}" using hd y by simp
    have old: "(symmIn y \<longrightarrow> sgn_at n neg (m y) (cur ! m_new y) = T (mr y) \<and>
                          sgn_at n neg (mr y) (cur ! mr_new y) = T (m y)) \<and>
           (\<not> symmIn y \<longrightarrow> cur ! m y = T (mr y) \<and> cur ! mr y = T (m y))"
      using Cons.prems(4) y by simp
    show "(symmIn y \<longrightarrow> sgn_at n neg (m y) (?c1 ! m_new y) = T (mr y) \<and>
                          sgn_at n neg (mr y) (?c1 ! mr_new y) = T (m y)) \<and>
           (\<not> symmIn y \<longrightarrow> ?c1 ! m y = T (mr y) \<and> ?c1 ! mr y = T (m y))"
    proof (cases "symmIn y")
      case True
      then have "m_new y \<notin> writes r" "mr_new y \<notin> writes r"
        using d by (auto simp: reads_def)
      then show ?thesis using old True keep by simp
    next
      case False
      then have "m y \<notin> writes r" "mr y \<notin> writes r"
        using d by (auto simp: reads_def)
      then show ?thesis using old False keep by simp
    qed
  qed
  note IH = Cons.IH[OF l1 b1 o1 v1]
  have f: "fold (rec_eff n neg) (r # rs) cur = fold (rec_eff n neg) rs ?c1"
    using e by simp
  show ?case unfolding f
  proof (intro conjI allI impI)
    show "length (fold (rec_eff n neg) rs ?c1) = n" using IH by blast
  next
    fix i
    assume i: "i < n"
    have "fold (rec_eff n neg) rs ?c1 ! i =
          (if \<exists>r \<in> set rs. i \<in> writes r then T i else ?c1 ! i)"
      using IH i by blast
    moreover have "?c1 ! i = (if i \<in> writes r then T i else cur ! i)"
      using i b Cons.prems(1) by (auto simp: writes_def nth_list_update)
    ultimately show "fold (rec_eff n neg) rs ?c1 ! i =
          (if \<exists>r \<in> set (r # rs). i \<in> writes r then T i else cur ! i)"
      by auto
  qed
qed


lemma hermitian_nth:
  "i < n \<Longrightarrow> hermitian n neg xs ! i =
     (if n div 2 < i then sgn_at n neg i (xs ! (n - i)) else xs ! i)"
  by (simp add: hermitian_def)

lemma symm_final:
  fixes q :: nat and rs :: "SWAP list" and xs0 F :: "real list"
  defines "n \<equiv> 2 ^ Suc q"
  assumes pl: "\<forall>r \<in> set rs. planned (Suc q) n r"
    and ord: "no_stale_read rs"
    and cov: "\<forall>x. 0 < x \<and> x < n \<and> x < bit_reversal (Suc q) x \<longrightarrow> (\<exists>r \<in> set rs. m r = x)"
    and lenF: "length F = n"
    and Fspec: "\<forall>i < n. F ! i =
        (if n div 2 < i \<and> \<not> (\<exists>r \<in> set rs. i \<in> writes r)
         then sgn_at n neg i (xs0 ! (n - i)) else xs0 ! i)"
  shows "fold (rec_eff n neg) rs F = permuted (Suc q) (hermitian n neg xs0)"
proof -
  note bit_reversal.simps [simp del]
  let ?b = "bit_reversal (Suc q)"
  let ?h = "(2::nat) ^ q"
  let ?H = "hermitian n neg xs0"
  let ?T = "\<lambda>i. ?H ! ?b i"
  have h: "n div 2 = ?h" by (simp add: n_def)
  have nh: "n = ?h + ?h" by (simp add: n_def)
  have hpos: "0 < ?h" by simp
  have bl: "?b x < n" for x unfolding n_def by (rule bit_reversal_less)
  have low: "F ! i = xs0 ! i" if "i \<le> ?h" for i
  proof -
    have "i < n" using that nh hpos by linarith
    then show ?thesis using Fspec that h by simp
  qed
  have Hlow: "?H ! i = xs0 ! i" if "i \<le> ?h" for i
  proof -
    have "i < n" using that nh hpos by linarith
    then show ?thesis using that h by (simp add: hermitian_nth)
  qed
  have Hup: "?H ! i = sgn_at n neg i (xs0 ! (n - i))" if "?h < i" "i < n" for i
    using that h by (simp add: hermitian_nth)
  have sg: "sgn_at n neg i v = v" if "i \<le> ?h" for i v
    using that h by (simp add: sgn_at_def)
  have rec: "m r < n \<and> mr r < n \<and> m r \<noteq> mr r \<and> (symmIn r \<longrightarrow> mr_new r \<noteq> mr r) \<and>
             (symmIn r \<longrightarrow> sgn_at n neg (m r) (F ! m_new r) = ?T (mr r) \<and>
                            sgn_at n neg (mr r) (F ! mr_new r) = ?T (m r)) \<and>
             (\<not> symmIn r \<longrightarrow> F ! m r = ?T (mr r) \<and> F ! mr r = ?T (m r))"
    if r: "r \<in> set rs" for r
  proof -
    have "planned (Suc q) n r" using pl r by blast
    then have p: "m r < n" "mr r = ?b (m r)" "m r < mr r" "symmIn r \<longleftrightarrow> ?h < mr r"
      "symmIn r \<longrightarrow> m_new r = (if ?h < m r then n - m r else m r) \<and> mr_new r = n - mr r"
      by (simp_all add: planned_def n_def)
    have mrl: "mr r < n" unfolding p(2) by (rule bl)
    have bm: "?b (mr r) = m r" unfolding p(2) using bit_reversal_invol[of "m r" "Suc q"] p(1)
      by (simp add: n_def)
    have t1: "?T (mr r) = ?H ! m r" using bm by simp
    have t2: "?T (m r) = ?H ! mr r" using p(2) by simp
    show ?thesis
    proof (cases "symmIn r")
      case False
      then have le: "mr r \<le> ?h" "m r \<le> ?h" using p(3,4) by simp_all
      show ?thesis using False p(1,3) mrl t1 t2 low[OF le(1)] low[OF le(2)] Hlow[OF le(1)] Hlow[OF le(2)]
        by simp
    next
      case True
      then have big: "?h < mr r" using p(4) by simp
      have mn: "m_new r = (if ?h < m r then n - m r else m r)" and mrn: "mr_new r = n - mr r"
        using p(5) True by simp_all
      have l2: "n - mr r \<le> ?h" using big nh by linarith
      have ne: "mr_new r \<noteq> mr r" using mrn big nh by linarith
      have v2: "sgn_at n neg (mr r) (F ! mr_new r) = ?T (m r)"
        unfolding t2 mrn low[OF l2] using Hup[OF big mrl] by simp
      have v1: "sgn_at n neg (m r) (F ! m_new r) = ?T (mr r)"
      proof (cases "?h < m r")
        case True
        have l1: "n - m r \<le> ?h" using True nh by linarith
        show ?thesis unfolding t1 using mn True low[OF l1] Hup[OF True p(1)] by simp
      next
        case False
        then have le: "m r \<le> ?h" by simp
        show ?thesis unfolding t1 using mn False low[OF le] Hlow[OF le] sg[OF le] by simp
      qed
      show ?thesis using True p(1,3) mrl ne v1 v2 by simp
    qed
  qed
  have a2: "\<forall>r \<in> set rs. m r < n \<and> mr r < n \<and> m r \<noteq> mr r \<and> (symmIn r \<longrightarrow> mr_new r \<noteq> mr r)"
    using rec by blast
  have a3: "sorted_wrt (\<lambda>a b. reads b \<inter> writes a = {}) rs"
    using ord by (simp add: no_stale_read_def)
  have a4: "\<forall>r \<in> set rs.
           (symmIn r \<longrightarrow> sgn_at n neg (m r) (F ! m_new r) = ?T (mr r) \<and>
                          sgn_at n neg (mr r) (F ! mr_new r) = ?T (m r)) \<and>
           (\<not> symmIn r \<longrightarrow> F ! m r = ?T (mr r) \<and> F ! mr r = ?T (m r))"
    using rec by blast
  have res: "length (fold (rec_eff n neg) rs F) = n \<and>
         (\<forall>i < n. fold (rec_eff n neg) rs F ! i =
                    (if \<exists>r \<in> set rs. i \<in> writes r then ?T i else F ! i))"
    by (rule fold_records[OF lenF a2 a3 a4])
  have unl: "F ! i = ?T i" if i: "i < n" and nl: "\<not> (\<exists>r \<in> set rs. i \<in> writes r)" for i
  proof -
    have pal: "?b i = i"
    proof (rule ccontr)
      assume ne: "?b i \<noteq> i"
      have il: "i < 2 ^ Suc q" using i by (simp add: n_def)
      show False
      proof (cases "i < ?b i")
        case True
        then have "0 < i" by (cases "i = 0") simp_all
        then obtain r where "r \<in> set rs" "m r = i" using cov i True by blast
        then show False using nl by (auto simp: writes_def)
      next
        case False
        then have lt: "?b i < i" using ne by simp
        have "?b i \<noteq> 0" using bit_reversal_eq_zero[OF il] lt by auto
        moreover have "?b (?b i) = i" by (rule bit_reversal_invol[OF il])
        ultimately obtain r where r: "r \<in> set rs" "m r = ?b i"
          using cov lt bl[of i] by (metis neq0_conv)
        have "planned (Suc q) n r" using pl r by blast
        then have "mr r = i" using r \<open>?b (?b i) = i\<close> by (simp add: planned_def)
        then show False using nl r by (auto simp: writes_def)
      qed
    qed
    show ?thesis unfolding pal using Fspec i nl by (simp add: hermitian_nth)
  qed
  show ?thesis
  proof (rule nth_equalityI)
    show "length (fold (rec_eff n neg) rs F) = length (permuted (Suc q) ?H)"
      using res by (simp add: permuted_def n_def)
  next
    fix i
    assume "i < length (fold (rec_eff n neg) rs F)"
    then have i: "i < n" using res by simp
    have "fold (rec_eff n neg) rs F ! i = ?T i"
      using res i unl[OF i] by auto
    then show "fold (rec_eff n neg) rs F ! i = permuted (Suc q) ?H ! i"
      using i by (simp add: permuted_def n_def)
  qed
qed


lemma planner_symm_facts:
  assumes "planner (2 ^ Suc q) True = Inr st"
  shows "(\<forall>r \<in> set (records st). planned (Suc q) (2 ^ Suc q) r) \<and>
         no_stale_read (records st) \<and>
         (\<forall>x. 0 < x \<and> x < 2 ^ Suc q \<and> x < bit_reversal (Suc q) x \<longrightarrow>
              (\<exists>r \<in> set (records st). m r = x))"
proof (cases q)
  case 0
  have st: "st = \<lparr>cur_mr = 1, nSwap = 0, swap = swap_init 2\<rparr>"
    using assms planner_symm_small(2) 0 by simp
  have "\<not> (0 < x \<and> x < 2 ^ Suc 0 \<and> x < bit_reversal (Suc 0) x)" for x
  proof
    assume a: "0 < x \<and> x < 2 ^ Suc 0 \<and> x < bit_reversal (Suc 0) x"
    then have "x = Suc 0" by simp
    then show False using a by simp
  qed
  then show ?thesis unfolding 0 st by (simp add: records_def no_stale_read_def)
next
  case (Suc q')
  show ?thesis using planner_symm_invariant[of q' st] assms unfolding Suc by blast
qed

lemma listed_writes:
  "listed (swap st) (nSwap st) i \<longleftrightarrow> (\<exists>r \<in> set (records st). i \<in> writes r)"
  by (auto simp: listed_def records_def writes_def list_ex_iff)

lemma perm_emit_symm:
  fixes q :: nat
  defines "n \<equiv> 2 ^ Suc q"
  assumes st: "planner n True = Inr st"
    and lx: "length (xr s) = n" and ly: "length (xi s) = n"
  shows "xr (run (perm_emit n ri True st) s) = permuted (Suc q) (hermitian n False (xr s))"
    and "\<not> ri \<Longrightarrow>
         xi (run (perm_emit n ri True st) s) = permuted (Suc q) (hermitian n True (xi s))"
proof -
  let ?h = "(2::nat) ^ q"
  let ?rs = "records st"
  let ?L = "\<lambda>i. listed (swap st) (nSwap st) i"
  let ?g = "\<lambda>i. if ?L i then [] else [FillR i (?h + ?h - i), CopyNeg i (?h + ?h - i)]"
  let ?js = "[Suc ?h..<?h + ?h]"
  let ?s1 = "run (concat (map ?g ?js)) s"
  have nh: "n = ?h + ?h" by (simp add: n_def)
  have h: "n div 2 = ?h" by (simp add: n_def)
  have facts: "(\<forall>r \<in> set ?rs. planned (Suc q) n r) \<and> no_stale_read ?rs \<and>
         (\<forall>x. 0 < x \<and> x < n \<and> x < bit_reversal (Suc q) x \<longrightarrow> (\<exists>r \<in> set ?rs. m r = x))"
    using planner_symm_facts[of q st] st unfolding n_def by blast
  have fs: "fill_stmts n (swap st) (nSwap st) = concat (map ?g ?js)"
    unfolding fill_stmts_def h unfolding nh by simp
  have j1: "\<forall>j \<in> set ?js. ?h < j \<and> j < ?h + ?h" by auto
  have j2: "distinct ?js" by simp
  have fill: "length (xr ?s1) = ?h + ?h \<and> length (xi ?s1) = ?h + ?h \<and>
         (\<forall>i < ?h + ?h. xr ?s1 ! i =
              (if i \<in> set ?js \<and> \<not> ?L i then xr s ! (?h + ?h - i) else xr s ! i)) \<and>
         (\<forall>i < ?h + ?h. xi ?s1 ! i =
              (if i \<in> set ?js \<and> \<not> ?L i then - (xi s ! (?h + ?h - i)) else xi s ! i))"
    using run_fill[OF j1 j2, of s ?L] lx ly unfolding nh by blast
  have e: "run (perm_emit n ri True st) s = run (concat (map (swap_stmts n ri) ?rs)) ?s1"
    by (simp add: perm_emit_def fs run_append run_def)
  have X: "xr (run (perm_emit n ri True st) s) = fold (rec_eff n False) ?rs (xr ?s1)"
    and Y: "\<not> ri \<Longrightarrow> xi (run (perm_emit n ri True st) s) = fold (rec_eff n True) ?rs (xi ?s1)"
    unfolding e using run_records[of n ri ?rs ?s1] by simp_all
  have FX: "\<forall>i < n. xr ?s1 ! i =
        (if n div 2 < i \<and> \<not> (\<exists>r \<in> set ?rs. i \<in> writes r)
         then sgn_at n False i (xr s ! (n - i)) else xr s ! i)"
    using fill unfolding h listed_writes nh by (auto simp: sgn_at_def)
  have FY: "\<forall>i < n. xi ?s1 ! i =
        (if n div 2 < i \<and> \<not> (\<exists>r \<in> set ?rs. i \<in> writes r)
         then sgn_at n True i (xi s ! (n - i)) else xi s ! i)"
    using fill unfolding h listed_writes nh by (auto simp: sgn_at_def)
  have lX: "length (xr ?s1) = n" and lY: "length (xi ?s1) = n" using fill nh by simp_all
  show "xr (run (perm_emit n ri True st) s) = permuted (Suc q) (hermitian n False (xr s))"
    unfolding X unfolding n_def
    by (rule symm_final[OF facts[unfolded n_def, THEN conjunct1]
          facts[unfolded n_def, THEN conjunct2, THEN conjunct1]
          facts[unfolded n_def, THEN conjunct2, THEN conjunct2]
          lX[unfolded n_def] FX[unfolded n_def]])
  show "xi (run (perm_emit n ri True st) s) = permuted (Suc q) (hermitian n True (xi s))"
    if "\<not> ri"
    unfolding Y[OF that] unfolding n_def
    by (rule symm_final[OF facts[unfolded n_def, THEN conjunct1]
          facts[unfolded n_def, THEN conjunct2, THEN conjunct1]
          facts[unfolded n_def, THEN conjunct2, THEN conjunct2]
          lY[unfolded n_def] FY[unfolded n_def]])
qed


lemma singleton_nth: "length xs = Suc 0 \<Longrightarrow> [xs ! 0] = xs"
  by (cases xs) simp_all

lemma perm_emit_symm_one:
  assumes "planner (2 ^ 0) True = Inr st" "length (xr s) = 2 ^ 0" "length (xi s) = 2 ^ 0"
  shows "xr (run (perm_emit (2 ^ 0) ri True st) s) = permuted 0 (hermitian (2 ^ 0) False (xr s))"
    and "xi (run (perm_emit (2 ^ 0) ri True st) s) = permuted 0 (hermitian (2 ^ 0) True (xi s))"
proof -
  have st: "st = \<lparr>cur_mr = 0, nSwap = 0, swap = swap_init 1\<rparr>"
    using assms(1) planner_symm_small(1) by simp
  have e: "run (perm_emit (2 ^ 0) ri True st) s = s"
    unfolding st by (simp add: perm_emit_def fill_stmts_def records_def run_def)
  show "xr (run (perm_emit (2 ^ 0) ri True st) s) = permuted 0 (hermitian (2 ^ 0) False (xr s))"
    unfolding e using assms(2) by (simp add: permuted_def hermitian_def singleton_nth)
  show "xi (run (perm_emit (2 ^ 0) ri True st) s) = permuted 0 (hermitian (2 ^ 0) True (xi s))"
    unfolding e using assms(3) by (simp add: permuted_def hermitian_def singleton_nth)
qed

lemma length_hermitian [simp]: "length (hermitian n neg xs) = n"
  by (simp add: hermitian_def)

text \<open>
  C2. With \<open>symm_in\<close> set and \<open>n\<close> a power of two, the planner ends, and in the list of
  records it leaves, in the order in which the emitter prints them, no record reads an
  index that an earlier record has written: a record that uses the symmetry reads
  \<open>m_new\<close> and \<open>mr_new\<close>, the counterparts in the lower half, any other record reads the
  two indices it exchanges. The lines printed for these records (after the lines that
  fill the indices no record lists) leave in \<open>xr\<close> what the records of the planner
  without \<open>symm_in\<close> leave when they are run on the array whose upper half was filled
  with the Hermitian counterparts beforehand, and the same holds for \<open>xi\<close> when the
  lines for \<open>xi\<close> are printed, that is without \<open>real_in\<close>.
\<close>

theorem reordered_records_sound:
  assumes "length (xr s) = 2 ^ p" and "length (xi s) = 2 ^ p"
  shows "\<exists>st st0. planner (2 ^ p) True = Inr st \<and> planner (2 ^ p) False = Inr st0 \<and>
           no_stale_read (records st) \<and>
           xr (run (perm_emit (2 ^ p) ri True st) s) =
             xr (run (perm_emit (2 ^ p) ri False st0) (filled (2 ^ p) s)) \<and>
           (\<not> ri \<longrightarrow>
              xi (run (perm_emit (2 ^ p) ri True st) s) =
                xi (run (perm_emit (2 ^ p) ri False st0) (filled (2 ^ p) s)))"
proof -
  let ?n = "(2::nat) ^ p"
  obtain st where st: "planner ?n True = Inr st" using planner_total[of p True] by blast
  have safe: "no_stale_read (records st)"
    using no_stale_read_planner[of p] st by simp
  have lf: "length (xr (filled ?n s)) = 2 ^ p" "length (xi (filled ?n s)) = 2 ^ p"
    by (simp_all add: filled_def)
  obtain st0 where st0: "planner ?n False = Inr st0"
    and px: "xr (run (perm_emit ?n ri False st0) (filled ?n s)) = permuted p (xr (filled ?n s))"
    and py: "xi (run (perm_emit ?n ri False st0) (filled ?n s)) =
             (if ri then xi (filled ?n s) else permuted p (xi (filled ?n s)))"
    using perm_emit_plain[OF lf, of ri] by blast
  have fx: "xr (filled ?n s) = hermitian ?n False (xr s)"
    and fy: "xi (filled ?n s) = hermitian ?n True (xi s)"
    by (simp_all add: filled_def)
  have x: "xr (run (perm_emit ?n ri True st) s) = permuted p (hermitian ?n False (xr s))"
    and y: "\<not> ri \<Longrightarrow> xi (run (perm_emit ?n ri True st) s) = permuted p (hermitian ?n True (xi s))"
  proof -
    show "xr (run (perm_emit ?n ri True st) s) = permuted p (hermitian ?n False (xr s))"
    proof (cases p)
      case 0
      show ?thesis using perm_emit_symm_one(1)[of st s ri] st assms unfolding 0 by simp
    next
      case (Suc q)
      show ?thesis using perm_emit_symm(1)[of q st s ri] st assms unfolding Suc by simp
    qed
    show "xi (run (perm_emit ?n ri True st) s) = permuted p (hermitian ?n True (xi s))" if "\<not> ri"
    proof (cases p)
      case 0
      show ?thesis using perm_emit_symm_one(2)[of st s ri] st assms unfolding 0 by simp
    next
      case (Suc q)
      show ?thesis using perm_emit_symm(2)[of q st s ri] st assms that unfolding Suc by simp
    qed
  qed
  have "xr (run (perm_emit ?n ri True st) s) = xr (run (perm_emit ?n ri False st0) (filled ?n s))"
    unfolding x px fx ..
  moreover have "\<not> ri \<longrightarrow> xi (run (perm_emit ?n ri True st) s) =
                xi (run (perm_emit ?n ri False st0) (filled ?n s))"
  proof
    assume nri: "\<not> ri"
    show "xi (run (perm_emit ?n ri True st) s) =
          xi (run (perm_emit ?n ri False st0) (filled ?n s))"
      unfolding y[OF nri] py fy using nri by simp
  qed
  ultimately show ?thesis using st st0 safe by blast
qed


lemma hermitian_four:
  "hermitian 4 False [a, b, c, d] = [a, b, c, b]"
  "hermitian 4 True [a, b, c, d] = [a, b, c, - b]"
proof -
  have u: "[0..<4] = [0, Suc 0, 2, 3]" by code_simp
  show "hermitian 4 False [a, b, c, d] = [a, b, c, b]"
    unfolding hermitian_def u by (simp add: sgn_at_def)
  show "hermitian 4 True [a, b, c, d] = [a, b, c, - b]"
    unfolding hermitian_def u by (simp add: sgn_at_def)
qed

theorem reordered_records_sound_witness:
  "(case planner 16 True of
      Inl e \<Rightarrow> False
    | Inr st \<Rightarrow>
        map (\<lambda>r. (m r, mr r, if symmIn r then Some (m_new r, mr_new r) else None))
            (records st) =
        [(1, 8, None), (11, 13, Some (5, 3)), (3, 12, Some (3, 4)), (7, 14, Some (7, 2)),
         (2, 4, None), (5, 10, Some (5, 6))] \<and>
        no_stale_read (records st)) \<and>
   (case planner 4 True of
      Inl e \<Rightarrow> False
    | Inr st \<Rightarrow>
        xr (run (perm_emit 4 False True st)
              \<lparr>xr = [10, 11, 12, 13], xi = [20, 21, 22, 23], tr = 0, ti = 0\<rparr>) =
          [10, 12, 11, 11] \<and>
        xi (run (perm_emit 4 False True st)
              \<lparr>xr = [10, 11, 12, 13], xi = [20, 21, 22, 23], tr = 0, ti = 0\<rparr>) =
          [20, 22, 21, - 21])"
proof -
  let ?z = "\<lparr>xr = replicate 16 0, xi = replicate 16 0, tr = 0, ti = 0\<rparr>"
  let ?s = "\<lparr>xr = [10, 11, 12, 13], xi = [20, 21, 22, 23], tr = 0, ti = 0\<rparr>"
  have lz: "length (xr ?z) = 2 ^ 4" "length (xi ?z) = 2 ^ 4" by simp_all
  have l: "length (xr ?s) = 2 ^ 2" "length (xi ?s) = 2 ^ 2" by simp_all
  have lf: "length (xr (filled (2 ^ 2) ?s)) = 2 ^ 2" "length (xi (filled (2 ^ 2) ?s)) = 2 ^ 2"
    by (simp_all add: filled_def)
  obtain st16 where a16: "planner (2 ^ 4) True = Inr st16" and s16: "no_stale_read (records st16)"
    using reordered_records_sound[OF lz, of False] by blast
  have first: "(case planner 16 True of
      Inl e \<Rightarrow> False
    | Inr st \<Rightarrow>
        map (\<lambda>r. (m r, mr r, if symmIn r then Some (m_new r, mr_new r) else None))
            (records st) =
        [(1, 8, None), (11, 13, Some (5, 3)), (3, 12, Some (3, 4)), (7, 14, Some (7, 2)),
         (2, 4, None), (5, 10, Some (5, 6))] \<and>
        no_stale_read (records st))"
    using a16 s16 planner_sixteen by simp
  obtain st st0 where a: "planner (2 ^ 2) True = Inr st" and a0: "planner (2 ^ 2) False = Inr st0"
    and x: "xr (run (perm_emit (2 ^ 2) False True st) ?s) =
            xr (run (perm_emit (2 ^ 2) False False st0) (filled (2 ^ 2) ?s))"
    and y: "xi (run (perm_emit (2 ^ 2) False True st) ?s) =
            xi (run (perm_emit (2 ^ 2) False False st0) (filled (2 ^ 2) ?s))"
    using reordered_records_sound[OF l, of False] by blast
  obtain st1 where a1: "planner (2 ^ 2) False = Inr st1"
    and x1: "xr (run (perm_emit (2 ^ 2) False False st1) (filled (2 ^ 2) ?s)) =
             permuted 2 (xr (filled (2 ^ 2) ?s))"
    and y1: "xi (run (perm_emit (2 ^ 2) False False st1) (filled (2 ^ 2) ?s)) =
             (if False then xi (filled (2 ^ 2) ?s) else permuted 2 (xi (filled (2 ^ 2) ?s)))"
    using perm_emit_plain[OF lf, of False] by blast
  have same: "st1 = st0" using a0 a1 by simp
  have fx: "xr (filled (2 ^ 2) ?s) = [10, 11, 12, 11]"
    and fy: "xi (filled (2 ^ 2) ?s) = [20, 21, 22, - 21]"
    by (simp_all add: filled_def hermitian_four)
  have "xr (run (perm_emit 4 False True st) ?s) = [10, 12, 11, 11]"
    using x x1 unfolding same fx by (simp add: permuted_four)
  moreover have "xi (run (perm_emit 4 False True st) ?s) = [20, 22, 21, - 21]"
    using y y1 unfolding same fy by (simp add: permuted_four)
  moreover have "planner 4 True = Inr st" using a by simp
  ultimately show ?thesis using first by simp
qed

section \<open>The constants in the emitted lines\<close>





















end
